theory Spec2Isabelle
  imports Main "HOL-Library.Multiset"
begin

section \<open>Data model\<close>

text \<open>
  The board keeps its tasks and users in two database tables that the backend reaches
  through Prisma. A table is modelled as the list of its rows; a row is a record with the
  columns the backend code reads and writes. Instants are milliseconds since the epoch
  (\<^verbatim>\<open>Date.now()\<close>), hence integers. The columns \<^verbatim>\<open>createdAt\<close> and
  \<^verbatim>\<open>updatedAt\<close> are never read by the code under study and are left out.
\<close>

datatype TStatus = TODO | PROGRESS | DONE

record user =
  user_id :: string
  user_name :: string
  user_email :: string

record task =
  task_id :: string
  title :: string
  description :: "string option"
  status :: TStatus
  orderId :: int
  isLocked :: bool
  lockAcquiredBy :: "string option"
  lockAcquireTime :: "int option"
  isEditLocked :: bool
  editLockAcquiredBy :: "string option"
  editLockAcquireTime :: "int option"

text \<open>
  A task as it travels to the browser (\<^verbatim>\<open>types.ts\<close>): the row, the two included
  relations and the client-only flag \<^verbatim>\<open>_isOptimistic\<close> (absent, hence false, on
  everything the server sends).
\<close>

record ctask = task +
  rel_lockedBy :: "user option"
  rel_editLockedBy :: "user option"
  isOptimistic :: bool

text \<open>The socket.io notifications of the backend, one constructor per event name.\<close>

datatype event =
    TaskCreated ctask
  | TaskUpdated ctask
  | TaskReordered "(string \<times> int) list"
  | TaskDeleted string
  | LockAcquired string "user option"
  | LockReleased string
  | LockExpired string
  | EditLockAcquired string "user option"
  | EditLockReleased string
  | EditLockExpired string

text \<open>
  The state of the server: the two tables, the notifications sent so far, and the write
  batches that \<^verbatim>\<open>prisma.$transaction([...])\<close> has committed so far, oldest first, each
  batch being its list of (task id, order index) updates.
\<close>

record db =
  tasks :: "task list"
  users :: "user list"
  emitted :: "event list"
  committed :: "(string \<times> int) list list"

datatype error = TASK_NOT_FOUND | RecordNotFound

record LockResult =
  success :: bool
  lockedBy :: "user option"

section \<open>Database primitives\<close>

definition emit :: "event \<Rightarrow> db \<Rightarrow> db" where
  "emit e d = d\<lparr>emitted := emitted d @ [e]\<rparr>"

definition findUnique :: "string \<Rightarrow> task list \<Rightarrow> task option" where
  "findUnique k ts = find (\<lambda>t. task_id t = k) ts"

definition findUser :: "string \<Rightarrow> user list \<Rightarrow> user option" where
  "findUser k us = find (\<lambda>u. user_id u = k) us"

text \<open>
  \<^verbatim>\<open>prisma.task.update({where: {id}, data})\<close> rewrites the row with that id and throws
  when there is none. Constraints that only the Prisma schema declares are not modelled:
  the schema is not among the sources.
\<close>

definition update :: "string \<Rightarrow> (task \<Rightarrow> task) \<Rightarrow> task list \<Rightarrow> error + task list" where
  "update k f ts =
     (case findUnique k ts of
        None \<Rightarrow> Inl RecordNotFound
      | Some _ \<Rightarrow> Inr (map (\<lambda>t. if task_id t = k then f t else t) ts))"

text \<open>
  Modelled from the spec: the Prisma schema, which declares the relations
  \<^verbatim>\<open>lockedBy\<close> and \<^verbatim>\<open>editLockedBy\<close> of a task, is missing from the sources. The
  relation is taken to be the user row whose id is stored in the holder column
  (\<^verbatim>\<open>lockAcquiredBy\<close>, \<^verbatim>\<open>editLockAcquiredBy\<close>): "the current holder's identity".
\<close>

definition relUser :: "user list \<Rightarrow> string option \<Rightarrow> user option" where
  "relUser us h = (case h of None \<Rightarrow> None | Some k \<Rightarrow> findUser k us)"

definition include_rels :: "user list \<Rightarrow> task \<Rightarrow> ctask" where
  "include_rels us t =
     task.extend t \<lparr>rel_lockedBy = relUser us (lockAcquiredBy t),
                    rel_editLockedBy = relUser us (editLockAcquiredBy t),
                    isOptimistic = False\<rparr>"

section \<open>Lock service\<close>

definition setLock :: "string \<Rightarrow> int \<Rightarrow> task \<Rightarrow> task" where
  "setLock userId now t =
     t\<lparr>isLocked := True, lockAcquiredBy := Some userId, lockAcquireTime := Some now\<rparr>"

definition clearLock :: "task \<Rightarrow> task" where
  "clearLock t = t\<lparr>isLocked := False, lockAcquiredBy := None, lockAcquireTime := None\<rparr>"

definition setEditLock :: "string \<Rightarrow> int \<Rightarrow> task \<Rightarrow> task" where
  "setEditLock userId now t =
     t\<lparr>isEditLocked := True, editLockAcquiredBy := Some userId, editLockAcquireTime := Some now\<rparr>"

definition clearEditLock :: "task \<Rightarrow> task" where
  "clearEditLock t =
     t\<lparr>isEditLocked := False, editLockAcquiredBy := None, editLockAcquireTime := None\<rparr>"

text \<open>
  \<^verbatim>\<open>acquireLock\<close>: the transaction reads the row, refuses when another user holds the
  lock, succeeds without writing when the caller already holds it, and otherwise stamps
  the lock with the caller and the current instant. A successful result is followed by
  the \<^verbatim>\<open>task:lock_acquired\<close> notification. \<open>Inl\<close> is the thrown error.
\<close>

definition acquireLock :: "int \<Rightarrow> string \<Rightarrow> string \<Rightarrow> db \<Rightarrow> error + (LockResult \<times> db)" where
  "acquireLock now taskId userId d =
     (case findUnique taskId (tasks d) of
        None \<Rightarrow> Inl TASK_NOT_FOUND
      | Some t \<Rightarrow>
          if isLocked t \<and> lockAcquiredBy t \<noteq> Some userId then
            Inr (\<lparr>success = False, lockedBy = relUser (users d) (lockAcquiredBy t)\<rparr>, d)
          else if isLocked t \<and> lockAcquiredBy t = Some userId then
            Inr (\<lparr>success = True, lockedBy = None\<rparr>,
                 emit (LockAcquired taskId (findUser userId (users d))) d)
          else
            (case update taskId (setLock userId now) (tasks d) of
               Inl e \<Rightarrow> Inl e
             | Inr ts \<Rightarrow>
                 Inr (\<lparr>success = True, lockedBy = None\<rparr>,
                      emit (LockAcquired taskId (findUser userId (users d))) (d\<lparr>tasks := ts\<rparr>))))"

definition releaseLock :: "string \<Rightarrow> string \<Rightarrow> db \<Rightarrow> error + (bool \<times> db)" where
  "releaseLock taskId userId d =
     (case findUnique taskId (tasks d) of
        None \<Rightarrow> Inr (False, d)
      | Some t \<Rightarrow>
          if \<not> isLocked t then Inr (False, d)
          else if lockAcquiredBy t \<noteq> Some userId then Inr (False, d)
          else
            (case update taskId clearLock (tasks d) of
               Inl e \<Rightarrow> Inl e
             | Inr ts \<Rightarrow> Inr (True, emit (LockReleased taskId) (d\<lparr>tasks := ts\<rparr>))))"

definition forceReleaseLock :: "string \<Rightarrow> db \<Rightarrow> error + (bool \<times> db)" where
  "forceReleaseLock taskId d =
     (case findUnique taskId (tasks d) of
        None \<Rightarrow> Inr (False, d)
      | Some t \<Rightarrow>
          if \<not> isLocked t then Inr (False, d)
          else
            (case update taskId clearLock (tasks d) of
               Inl e \<Rightarrow> Inl e
             | Inr ts \<Rightarrow> Inr (True, emit (LockExpired taskId) (d\<lparr>tasks := ts\<rparr>))))"

definition acquireEditLock :: "int \<Rightarrow> string \<Rightarrow> string \<Rightarrow> db \<Rightarrow> error + (LockResult \<times> db)" where
  "acquireEditLock now taskId userId d =
     (case findUnique taskId (tasks d) of
        None \<Rightarrow> Inl TASK_NOT_FOUND
      | Some t \<Rightarrow>
          if isEditLocked t \<and> editLockAcquiredBy t \<noteq> Some userId then
            Inr (\<lparr>success = False, lockedBy = relUser (users d) (editLockAcquiredBy t)\<rparr>, d)
          else if isEditLocked t \<and> editLockAcquiredBy t = Some userId then
            Inr (\<lparr>success = True, lockedBy = None\<rparr>,
                 emit (EditLockAcquired taskId (findUser userId (users d))) d)
          else
            (case update taskId (setEditLock userId now) (tasks d) of
               Inl e \<Rightarrow> Inl e
             | Inr ts \<Rightarrow>
                 Inr (\<lparr>success = True, lockedBy = None\<rparr>,
                      emit (EditLockAcquired taskId (findUser userId (users d)))
                        (d\<lparr>tasks := ts\<rparr>))))"

definition releaseEditLock :: "string \<Rightarrow> string \<Rightarrow> db \<Rightarrow> error + (bool \<times> db)" where
  "releaseEditLock taskId userId d =
     (case findUnique taskId (tasks d) of
        None \<Rightarrow> Inr (False, d)
      | Some t \<Rightarrow>
          if \<not> isEditLocked t then Inr (False, d)
          else if editLockAcquiredBy t \<noteq> Some userId then Inr (False, d)
          else
            (case update taskId clearEditLock (tasks d) of
               Inl e \<Rightarrow> Inl e
             | Inr ts \<Rightarrow> Inr (True, emit (EditLockReleased taskId) (d\<lparr>tasks := ts\<rparr>))))"

definition forceReleaseEditLock :: "string \<Rightarrow> db \<Rightarrow> error + (bool \<times> db)" where
  "forceReleaseEditLock taskId d =
     (case findUnique taskId (tasks d) of
        None \<Rightarrow> Inr (False, d)
      | Some t \<Rightarrow>
          if \<not> isEditLocked t then Inr (False, d)
          else
            (case update taskId clearEditLock (tasks d) of
               Inl e \<Rightarrow> Inl e
             | Inr ts \<Rightarrow> Inr (True, emit (EditLockExpired taskId) (d\<lparr>tasks := ts\<rparr>))))"

section \<open>Task routes\<close>

text \<open>
  Each handler is modelled from the point where its zod schema has accepted the request
  (the 400 answer is not part of the model): it takes the parsed fields and the database,
  and returns the HTTP answer with the database it leaves behind. An exception caught by
  the handler is the answer 500.
\<close>

datatype 'a http = Http200 'a | Http201 'a | Http403 | Http404 | Http409 "user option" | Http500

text \<open>
  Modelled from the spec: the column defaults of a new row are declared in the Prisma
  schema, which is missing from the sources. Both locks of a new task are free (the
  initial state \<^verbatim>\<open>FREE\<close> of the lock state machine); the server-assigned id and
  order index are supplied by the parameter \<open>fresh\<close>.
\<close>

definition newTask :: "string \<times> int \<Rightarrow> string \<Rightarrow> string option \<Rightarrow> TStatus \<Rightarrow> task" where
  "newTask idn ttl desc st =
     \<lparr>task_id = fst idn, title = ttl, description = desc, status = st, orderId = snd idn,
      isLocked = False, lockAcquiredBy = None, lockAcquireTime = None,
      isEditLocked = False, editLockAcquiredBy = None, editLockAcquireTime = None\<rparr>"

definition createTaskRoute ::
  "(db \<Rightarrow> string \<times> int) \<Rightarrow> string \<Rightarrow> string option \<Rightarrow> TStatus option \<Rightarrow> db \<Rightarrow> ctask http \<times> db" where
  "createTaskRoute fresh ttl desc st d =
     (let t = newTask (fresh d) ttl desc (case st of None \<Rightarrow> TODO | Some x \<Rightarrow> x);
          d1 = d\<lparr>tasks := tasks d @ [t]\<rparr>;
          v = include_rels (users d1) t
      in (Http201 v, emit (TaskCreated v) d1))"

definition setTitle :: "string option \<Rightarrow> string option \<Rightarrow> task \<Rightarrow> task" where
  "setTitle ttl desc t =
     t\<lparr>title := (case ttl of None \<Rightarrow> title t | Some x \<Rightarrow> x),
       description := (case desc of None \<Rightarrow> description t | Some x \<Rightarrow> Some x)\<rparr>"

definition updateTitleRoute ::
  "string \<Rightarrow> string option \<Rightarrow> string option \<Rightarrow> string \<Rightarrow> db \<Rightarrow> ctask http \<times> db" where
  "updateTitleRoute k ttl desc userId d =
     (case findUnique k (tasks d) of
        None \<Rightarrow> (Http404, d)
      | Some taskCheck \<Rightarrow>
          if \<not> isEditLocked taskCheck \<or> editLockAcquiredBy taskCheck \<noteq> Some userId then (Http403, d)
          else
            (case update k (setTitle ttl desc) (tasks d) of
               Inl e \<Rightarrow> (Http500, d)
             | Inr ts \<Rightarrow>
                 (let d1 = d\<lparr>tasks := ts\<rparr>;
                      v = include_rels (users d1) (setTitle ttl desc taskCheck)
                  in case releaseEditLock k userId d1 of
                       Inl e \<Rightarrow> (Http500, d1)
                     | Inr (_, d2) \<Rightarrow>
                         (Http200 v,
                          emit (TaskUpdated (v\<lparr>isEditLocked := False, editLockAcquiredBy := None,
                                               editLockAcquireTime := None,
                                               rel_editLockedBy := None\<rparr>)) d2))))"

text \<open>
  The status route includes only the relation \<^verbatim>\<open>lockedBy\<close> in its answer; the field
  \<^verbatim>\<open>editLockedBy\<close> is then absent from the JSON, which the model writes as \<open>None\<close>.
\<close>

definition updateStatusRoute :: "string \<Rightarrow> TStatus \<Rightarrow> string \<Rightarrow> db \<Rightarrow> ctask http \<times> db" where
  "updateStatusRoute taskId st userId d =
     (case findUnique taskId (tasks d) of
        None \<Rightarrow> (Http404, d)
      | Some taskCheck \<Rightarrow>
          if \<not> isLocked taskCheck \<or> lockAcquiredBy taskCheck \<noteq> Some userId then (Http403, d)
          else
            (case update taskId (\<lambda>t. t\<lparr>status := st\<rparr>) (tasks d) of
               Inl e \<Rightarrow> (Http500, d)
             | Inr ts \<Rightarrow>
                 (let d1 = d\<lparr>tasks := ts\<rparr>;
                      v = (include_rels (users d1) (taskCheck\<lparr>status := st\<rparr>))
                            \<lparr>rel_editLockedBy := None\<rparr>
                  in case releaseLock taskId userId d1 of
                       Inl e \<Rightarrow> (Http500, d1)
                     | Inr (_, d2) \<Rightarrow>
                         (Http200 v,
                          emit (TaskUpdated (v\<lparr>isLocked := False, lockAcquiredBy := None,
                                               lockAcquireTime := None,
                                               rel_lockedBy := None\<rparr>)) d2))))"

subsection \<open>Reorder\<close>

definition OFFSET :: int where
  "OFFSET = 100000"

text \<open>
  \<^verbatim>\<open>prisma.$transaction([...])\<close> runs the updates of a batch in order and commits all or
  nothing: the first failing update makes the whole batch fail, and the caller keeps the
  table it had. \<open>transaction\<close> is the effect of a batch on the table, \<open>commit\<close> the
  committed batch on the server state.
\<close>

fun transaction :: "(string \<times> int) list \<Rightarrow> task list \<Rightarrow> error + task list" where
  "transaction [] ts = Inr ts"
| "transaction ((k, v) # ws) ts =
     (case update k (\<lambda>t. t\<lparr>orderId := v\<rparr>) ts of
        Inl e \<Rightarrow> Inl e
      | Inr ts' \<Rightarrow> transaction ws ts')"

definition commit :: "(string \<times> int) list \<Rightarrow> db \<Rightarrow> error + db" where
  "commit ws d =
     (case transaction ws (tasks d) of
        Inl e \<Rightarrow> Inl e
      | Inr ts \<Rightarrow> Inr (d\<lparr>tasks := ts, committed := committed d @ [ws]\<rparr>))"

definition spreadBatch :: "string list \<Rightarrow> (string \<times> int) list" where
  "spreadBatch orderedIds = map (\<lambda>(index, k). (k, OFFSET + int index + 1)) (enumerate 0 orderedIds)"

definition compactBatch :: "string list \<Rightarrow> (string \<times> int) list" where
  "compactBatch orderedIds = map (\<lambda>(index, k). (k, int index + 1)) (enumerate 0 orderedIds)"

definition findManyIn :: "string list \<Rightarrow> task list \<Rightarrow> (string \<times> int) list" where
  "findManyIn ks ts = map (\<lambda>t. (task_id t, orderId t)) (filter (\<lambda>t. task_id t \<in> set ks) ts)"

definition reorderRoute ::
  "string \<Rightarrow> string \<Rightarrow> string list \<Rightarrow> db \<Rightarrow> (string \<times> int) list http \<times> db" where
  "reorderRoute taskId userId orderedIds d =
     (case findUnique taskId (tasks d) of
        None \<Rightarrow> (Http404, d)
      | Some taskCheck \<Rightarrow>
          if \<not> isLocked taskCheck \<or> lockAcquiredBy taskCheck \<noteq> Some userId then (Http403, d)
          else
            (case commit (spreadBatch orderedIds) d of
               Inl e \<Rightarrow> (Http500, d)
             | Inr d1 \<Rightarrow>
                 (case commit (compactBatch orderedIds) d1 of
                    Inl e \<Rightarrow> (Http500, d1)
                  | Inr d2 \<Rightarrow>
                      (case releaseLock taskId userId d2 of
                         Inl e \<Rightarrow> (Http500, d2)
                       | Inr (_, d3) \<Rightarrow>
                           (let updatedTasks = findManyIn orderedIds (tasks d3)
                            in (Http200 updatedTasks, emit (TaskReordered updatedTasks) d3))))))"

subsection \<open>Lock routes and delete\<close>

definition lockRoute :: "int \<Rightarrow> string \<Rightarrow> string \<Rightarrow> db \<Rightarrow> bool http \<times> db" where
  "lockRoute now lockTaskId userId d =
     (case acquireLock now lockTaskId userId d of
        Inl TASK_NOT_FOUND \<Rightarrow> (Http404, d)
      | Inl RecordNotFound \<Rightarrow> (Http500, d)
      | Inr (result, d') \<Rightarrow>
          if success result then (Http200 True, d') else (Http409 (lockedBy result), d'))"

definition unlockRoute :: "string \<Rightarrow> string \<Rightarrow> db \<Rightarrow> bool http \<times> db" where
  "unlockRoute releaseTaskId userId d =
     (case releaseLock releaseTaskId userId d of
        Inl e \<Rightarrow> (Http500, d)
      | Inr (released, d') \<Rightarrow> (Http200 released, d'))"

definition editLockRoute :: "int \<Rightarrow> string \<Rightarrow> string \<Rightarrow> db \<Rightarrow> bool http \<times> db" where
  "editLockRoute now k userId d =
     (case acquireEditLock now k userId d of
        Inl TASK_NOT_FOUND \<Rightarrow> (Http404, d)
      | Inl RecordNotFound \<Rightarrow> (Http500, d)
      | Inr (result, d') \<Rightarrow>
          if success result then (Http200 True, d') else (Http409 (lockedBy result), d'))"

definition editUnlockRoute :: "string \<Rightarrow> string \<Rightarrow> db \<Rightarrow> bool http \<times> db" where
  "editUnlockRoute k userId d =
     (case releaseEditLock k userId d of
        Inl e \<Rightarrow> (Http500, d)
      | Inr (released, d') \<Rightarrow> (Http200 released, d'))"

text \<open>
  \<^verbatim>\<open>prisma.task.delete({where: {id}})\<close> removes the row with that id and throws when
  there is none. The handler reads no lock column and takes no user.
\<close>

definition delete :: "string \<Rightarrow> task list \<Rightarrow> error + task list" where
  "delete k ts =
     (case findUnique k ts of
        None \<Rightarrow> Inl RecordNotFound
      | Some _ \<Rightarrow> Inr (filter (\<lambda>t. task_id t \<noteq> k) ts))"

definition deleteRoute :: "string \<Rightarrow> db \<Rightarrow> bool http \<times> db" where
  "deleteRoute deleteId d =
     (case delete deleteId (tasks d) of
        Inl e \<Rightarrow> (Http500, d)
      | Inr ts \<Rightarrow> (Http200 True, emit (TaskDeleted deleteId) (d\<lparr>tasks := ts\<rparr>)))"

section \<open>Lock expiry scheduler\<close>

definition LOCK_EXPIRY_MS :: int where
  "LOCK_EXPIRY_MS = 2 * 60 * 1000"

text \<open>The filter \<^verbatim>\<open>{lt: expiryThreshold}\<close>: a null instant satisfies no comparison.\<close>

definition lt :: "int option \<Rightarrow> int \<Rightarrow> bool" where
  "lt a threshold = (case a of None \<Rightarrow> False | Some x \<Rightarrow> x < threshold)"

text \<open>
  \<^verbatim>\<open>Promise.all(ids.map(f))\<close> starts every call; a rejected call rejects the whole but
  does not stop the others. The calls are run one after the other in the order of the
  list, and the result tells whether one of them was rejected.
\<close>

fun promiseAll ::
  "(string \<Rightarrow> db \<Rightarrow> error + (bool \<times> db)) \<Rightarrow> string list \<Rightarrow> db \<Rightarrow> bool \<times> db" where
  "promiseAll f [] d = (False, d)"
| "promiseAll f (k # ks) d =
     (case f k d of
        Inl e \<Rightarrow> (True, snd (promiseAll f ks d))
      | Inr (_, d') \<Rightarrow> promiseAll f ks d')"

text \<open>The \<^verbatim>\<open>where\<close> clauses of the two \<^verbatim>\<open>findMany\<close> queries of the sweep.\<close>

definition dragWhere :: "int \<Rightarrow> task \<Rightarrow> bool" where
  "dragWhere expiryThreshold t = (isLocked t \<and> lt (lockAcquireTime t) expiryThreshold)"

definition editWhere :: "int \<Rightarrow> task \<Rightarrow> bool" where
  "editWhere expiryThreshold t = (isEditLocked t \<and> lt (editLockAcquireTime t) expiryThreshold)"

text \<open>
  One run of the cron callback at the instant \<open>now\<close>. A rejection in the first sweep
  lands in the \<^verbatim>\<open>catch\<close> and skips the second one.
\<close>

definition tick :: "int \<Rightarrow> db \<Rightarrow> db" where
  "tick now d =
     (let expiryThreshold = now - LOCK_EXPIRY_MS;
          expiredDragTasks = map task_id (filter (dragWhere expiryThreshold) (tasks d));
          (rejected, d1) =
            (if length expiredDragTasks > 0 then promiseAll forceReleaseLock expiredDragTasks d
             else (False, d))
      in if rejected then d1
         else
           (let expiredEditTasks = map task_id (filter (editWhere expiryThreshold) (tasks d1))
            in if length expiredEditTasks > 0
               then snd (promiseAll forceReleaseEditLock expiredEditTasks d1)
               else d1))"

text \<open>
  The sweep in the words of the specification: a lock is expired at \<open>now\<close> when it is held
  with an acquisition instant earlier than \<open>now\<close> minus two minutes, and a tick frees
  exactly the expired locks, the position lock and the edit lock each on its own.
\<close>

definition expired_spec :: "int \<Rightarrow> bool \<Rightarrow> int option \<Rightarrow> bool" where
  "expired_spec now held acquiredAt =
     (held \<and> (case acquiredAt of None \<Rightarrow> False | Some a \<Rightarrow> a < now - 120000))"

definition sweep_spec :: "int \<Rightarrow> task \<Rightarrow> task" where
  "sweep_spec now t =
     (let t1 = (if expired_spec now (isLocked t) (lockAcquireTime t)
                then t\<lparr>isLocked := False, lockAcquiredBy := None, lockAcquireTime := None\<rparr>
                else t)
      in if expired_spec now (isEditLocked t) (editLockAcquireTime t)
         then t1\<lparr>isEditLocked := False, editLockAcquiredBy := None, editLockAcquireTime := None\<rparr>
         else t1)"

section \<open>Offline queue (browser)\<close>

text \<open>
  A queued event is the tagged union of \<^verbatim>\<open>offlineQueue.ts\<close>: the tag with its payload,
  the key that IndexedDB assigned and the instant of enqueueing.
\<close>

datatype payload =
    CREATE_TASK string "string option" string
  | UPDATE_TITLE string string "string option" string
  | UPDATE_STATUS string TStatus string
  | REORDER_TASKS string string "string list"
  | DELETE_TASK string

record StoredQueuedEvent =
  ev_id :: nat
  enqueuedAt :: int
  payload :: payload

text \<open>
  The object store \<^verbatim>\<open>events\<close> (key path \<^verbatim>\<open>id\<close>, auto-increment): its records in key
  order, which is the order \<^verbatim>\<open>getAll\<close> returns, and the key generator.
\<close>

record idb =
  rows :: "StoredQueuedEvent list"
  keygen :: nat

definition enqueueEvent :: "int \<Rightarrow> payload \<Rightarrow> idb \<Rightarrow> nat \<times> idb" where
  "enqueueEvent now e q =
     (let k = keygen q + 1
      in (k, q\<lparr>rows := rows q @ [\<lparr>ev_id = k, enqueuedAt = now, payload = e\<rparr>], keygen := k\<rparr>))"

text \<open>
  \<^verbatim>\<open>all.sort((a, b) => a.enqueuedAt - b.enqueuedAt)\<close>: the sort of JavaScript arrays is
  stable, as is \<^const>\<open>sort_key\<close>.
\<close>

definition getAllEvents :: "idb \<Rightarrow> StoredQueuedEvent list" where
  "getAllEvents q = sort_key enqueuedAt (rows q)"

definition removeEvent :: "nat \<Rightarrow> idb \<Rightarrow> idb" where
  "removeEvent k q = q\<lparr>rows := filter (\<lambda>e. ev_id e \<noteq> k) (rows q)\<rparr>"

definition clearQueue :: "idb \<Rightarrow> idb" where
  "clearQueue q = q\<lparr>rows := []\<rparr>"

definition countEvents :: "idb \<Rightarrow> nat" where
  "countEvents q = length (rows q)"

section \<open>Board state and toasts (browser)\<close>

text \<open>
  A toast is its message and its kind. The messages are templates over a count, so they
  are kept as constructors:
  \<^item> \<open>Syncing n\<close>: "Syncing n offline change(s)...";
  \<^item> \<open>TitleEditSkipped\<close>: "Could not sync title edit for task - edit locked by another user, skipped";
  \<^item> \<open>StatusChangeSkipped\<close>: "Could not sync status change - task is locked by another user, skipped";
  \<^item> \<open>ReorderSkipped\<close>: "Could not sync reorder - task is locked by another user, skipped";
  \<^item> \<open>AllSynced\<close>: "All offline changes synced!";
  \<^item> \<open>Discarded n\<close>: "n change(s) could not be synced and were discarded";
  \<^item> \<open>TaskQueued\<close>: "Task queued - will sync when back online".
\<close>

datatype message =
    Syncing nat
  | TitleEditSkipped
  | StatusChangeSkipped
  | ReorderSkipped
  | AllSynced
  | Discarded nat
  | TaskQueued

datatype kind = ToastSuccess | ToastError | ToastInfo

record client =
  idb :: idb
  board :: "ctask list"
  toasts :: "(message \<times> kind) list"
  isFlushing :: bool
  isSyncing :: bool
  queueLength :: nat

definition onToast :: "message \<Rightarrow> kind \<Rightarrow> client \<Rightarrow> client" where
  "onToast m k c = c\<lparr>toasts := toasts c @ [(m, k)]\<rparr>"

text \<open>\<^verbatim>\<open>Array.prototype.findIndex\<close>; \<open>None\<close> is the answer \<^verbatim>\<open>-1\<close>.\<close>

fun findIndex :: "('a \<Rightarrow> bool) \<Rightarrow> 'a list \<Rightarrow> nat option" where
  "findIndex P [] = None"
| "findIndex P (x # xs) = (if P x then Some 0 else map_option Suc (findIndex P xs))"

text \<open>
  The callbacks that \<^verbatim>\<open>BoardPage\<close> hands to the replay hook, as functions of the
  previous task list.
\<close>

definition onTaskCreated :: "ctask \<Rightarrow> ctask list \<Rightarrow> ctask list" where
  "onTaskCreated t prev =
     (case findIndex (\<lambda>p. isOptimistic p \<and> title p = title t) prev of
        Some firstPendingIdx \<Rightarrow> prev[firstPendingIdx := t]
      | None \<Rightarrow>
          (case find (\<lambda>p. task_id p = task_id t) prev of
             Some _ \<Rightarrow> prev
           | None \<Rightarrow> prev @ [t]))"

definition onTaskUpdated :: "ctask \<Rightarrow> ctask list \<Rightarrow> ctask list" where
  "onTaskUpdated t prev = map (\<lambda>p. if task_id p = task_id t then t else p) prev"

text \<open>The handler of the socket notification \<^verbatim>\<open>task:created\<close> on the same list.\<close>

definition handleTaskCreated :: "ctask \<Rightarrow> ctask list \<Rightarrow> ctask list" where
  "handleTaskCreated t prev =
     (case find (\<lambda>p. task_id p = task_id t) prev of
        Some _ \<Rightarrow> prev
      | None \<Rightarrow> prev @ [t])"

text \<open>
  The offline branch of \<^verbatim>\<open>CreateTaskForm.handleSubmit\<close>. \<open>ttl\<close> is the trimmed title
  (the branch is not reached when it is empty), \<open>tempId\<close> the result of
  \<^verbatim>\<open>crypto.randomUUID()\<close> and \<open>now\<close> that of \<^verbatim>\<open>Date.now()\<close>.
\<close>

definition optimisticTask :: "string \<Rightarrow> int \<Rightarrow> string \<Rightarrow> ctask" where
  "optimisticTask tempId now ttl =
     \<lparr>task_id = tempId, title = ttl, description = None, status = TODO, orderId = now,
      isLocked = False, lockAcquiredBy = None, lockAcquireTime = None,
      isEditLocked = False, editLockAcquiredBy = None, editLockAcquireTime = None,
      rel_lockedBy = None, rel_editLockedBy = None, isOptimistic = True\<rparr>"

definition enqueue :: "int \<Rightarrow> payload \<Rightarrow> client \<Rightarrow> client" where
  "enqueue now e c =
     (let q = snd (enqueueEvent now e (idb c))
      in c\<lparr>idb := q, queueLength := countEvents q\<rparr>)"

definition handleSubmitOffline :: "string \<Rightarrow> int \<Rightarrow> string \<Rightarrow> client \<Rightarrow> client" where
  "handleSubmitOffline tempId now ttl c =
     (let c1 = c\<lparr>board := board c @ [optimisticTask tempId now ttl]\<rparr>;
          c2 = enqueue now (CREATE_TASK ttl None tempId) c1
      in onToast TaskQueued ToastInfo c2)"

section \<open>Replay engine (browser)\<close>

text \<open>
  The replay hook talks to the backend through the axios wrappers of \<^verbatim>\<open>api.ts\<close>. What
  lies behind them (the network and the server) is a parameter: one function per endpoint,
  from the request and the server's state \<open>'s\<close> to the reply and the next state. A reply is
  a 2xx answer with its body, any other answer, or no answer at all.

  The server announces a creation on the socket (\<^verbatim>\<open>task:created\<close>) before it answers
  the request, and a flush runs only while the socket is connected, so the browser handles
  both; which of the two it handles first is up to the network. \<open>notifies_first\<close> tells,
  from the server's state after the request, whether the notification is handled before
  the answer. The other notifications overwrite tasks by their id and are not modelled.
\<close>

datatype 'a reply = Ok 'a | Rejected nat | NoResponse

record 's backend =
  post_task :: "string \<Rightarrow> string option \<Rightarrow> 's \<Rightarrow> ctask reply \<times> 's"
  patch_title :: "string \<Rightarrow> string \<Rightarrow> string option \<Rightarrow> string \<Rightarrow> 's \<Rightarrow> ctask reply \<times> 's"
  patch_status :: "string \<Rightarrow> TStatus \<Rightarrow> string \<Rightarrow> 's \<Rightarrow> ctask reply \<times> 's"
  patch_reorder :: "string \<Rightarrow> string \<Rightarrow> string list \<Rightarrow> 's \<Rightarrow> (string \<times> int) list reply \<times> 's"
  post_lock :: "string \<Rightarrow> string \<Rightarrow> 's \<Rightarrow> bool reply \<times> 's"
  delete_lock :: "string \<Rightarrow> string \<Rightarrow> 's \<Rightarrow> bool reply \<times> 's"
  post_edit_lock :: "string \<Rightarrow> string \<Rightarrow> 's \<Rightarrow> bool reply \<times> 's"
  delete_edit_lock :: "string \<Rightarrow> string \<Rightarrow> 's \<Rightarrow> bool reply \<times> 's"
  delete_task :: "string \<Rightarrow> 's \<Rightarrow> bool reply \<times> 's"
  notifies_first :: "'s \<Rightarrow> bool"

text \<open>
  \<^verbatim>\<open>.then((r) => r.data)\<close>: the body of a 2xx answer; anything else rejects the
  promise, written \<open>None\<close>.
\<close>

definition data :: "'a reply \<times> 's \<Rightarrow> 'a option \<times> 's" where
  "data r = (case fst r of Ok x \<Rightarrow> (Some x, snd r) | Rejected _ \<Rightarrow> (None, snd r) | NoResponse \<Rightarrow> (None, snd r))"

text \<open>
  \<^verbatim>\<open>.then((r) => r.data).catch((e) => e.response?.data)\<close> of the two acquire wrappers:
  the result is the body of whatever answer came, and \<^verbatim>\<open>undefined\<close> (\<open>None\<close>) when none
  came. Of the body only \<^verbatim>\<open>success\<close> is read afterwards; the bodies of the answers 404,
  409 and 500 have it false or absent, which is the same to \<^verbatim>\<open>!lockRes.success\<close>.
\<close>

definition lockData :: "bool reply \<times> 's \<Rightarrow> bool option \<times> 's" where
  "lockData r =
     (case fst r of Ok b \<Rightarrow> (Some b, snd r) | Rejected _ \<Rightarrow> (Some False, snd r) | NoResponse \<Rightarrow> (None, snd r))"

definition api_createTask :: "'s backend \<Rightarrow> string \<Rightarrow> string option \<Rightarrow> 's \<Rightarrow> ctask option \<times> 's" where
  "api_createTask B ttl desc s = data (post_task B ttl desc s)"

definition api_updateTitle ::
  "'s backend \<Rightarrow> string \<Rightarrow> string \<Rightarrow> string option \<Rightarrow> string \<Rightarrow> 's \<Rightarrow> ctask option \<times> 's" where
  "api_updateTitle B k ttl desc userId s = data (patch_title B k ttl desc userId s)"

definition api_updateStatus :: "'s backend \<Rightarrow> string \<Rightarrow> TStatus \<Rightarrow> string \<Rightarrow> 's \<Rightarrow> ctask option \<times> 's" where
  "api_updateStatus B k st userId s = data (patch_status B k st userId s)"

definition api_reorderTasks ::
  "'s backend \<Rightarrow> string \<Rightarrow> string \<Rightarrow> string list \<Rightarrow> 's \<Rightarrow> (string \<times> int) list option \<times> 's" where
  "api_reorderTasks B taskId userId orderedIds s = data (patch_reorder B taskId userId orderedIds s)"

definition api_deleteTask :: "'s backend \<Rightarrow> string \<Rightarrow> 's \<Rightarrow> bool option \<times> 's" where
  "api_deleteTask B k s = data (delete_task B k s)"

definition api_acquireLock :: "'s backend \<Rightarrow> string \<Rightarrow> string \<Rightarrow> 's \<Rightarrow> bool option \<times> 's" where
  "api_acquireLock B k userId s = lockData (post_lock B k userId s)"

definition api_releaseLock :: "'s backend \<Rightarrow> string \<Rightarrow> string \<Rightarrow> 's \<Rightarrow> bool option \<times> 's" where
  "api_releaseLock B k userId s = data (delete_lock B k userId s)"

definition api_acquireEditLock :: "'s backend \<Rightarrow> string \<Rightarrow> string \<Rightarrow> 's \<Rightarrow> bool option \<times> 's" where
  "api_acquireEditLock B k userId s = lockData (post_edit_lock B k userId s)"

definition api_releaseEditLock :: "'s backend \<Rightarrow> string \<Rightarrow> string \<Rightarrow> 's \<Rightarrow> bool option \<times> 's" where
  "api_releaseEditLock B k userId s = data (delete_edit_lock B k userId s)"

text \<open>
  \<^verbatim>\<open>replayOne\<close>: the result is the boolean it resolves to, with the browser and server
  states it leaves. Reading \<^verbatim>\<open>success\<close> of \<^verbatim>\<open>undefined\<close> throws into the outer
  \<^verbatim>\<open>catch\<close>, which answers false without a toast. The payload's \<^verbatim>\<open>tempId\<close> is not
  among the fields that the \<^verbatim>\<open>CREATE_TASK\<close> case takes out of the payload. In that case
  the board is what the two handlers of the creation leave, \<^verbatim>\<open>onTaskCreated\<close> for the
  answer and \<^verbatim>\<open>handleTaskCreated\<close> for the notification, in the order of their arrival.
\<close>

fun replayOne :: "'s backend \<Rightarrow> payload \<Rightarrow> client \<times> 's \<Rightarrow> bool \<times> (client \<times> 's)" where
  "replayOne B (CREATE_TASK ttl desc tempId) (c, s) =
     (case api_createTask B ttl desc s of
        (Some t, s1) \<Rightarrow>
          (True,
           (c\<lparr>board := (if notifies_first B s1
                          then onTaskCreated t (handleTaskCreated t (board c))
                          else handleTaskCreated t (onTaskCreated t (board c)))\<rparr>,
            s1))
      | (None, s1) \<Rightarrow> (False, (c, s1)))"
| "replayOne B (UPDATE_TITLE taskId ttl desc userId) (c, s) =
     (case api_acquireEditLock B taskId userId s of
        (None, s1) \<Rightarrow> (False, (c, s1))
      | (Some False, s1) \<Rightarrow> (False, (onToast TitleEditSkipped ToastError c, s1))
      | (Some True, s1) \<Rightarrow>
          (case api_updateTitle B taskId ttl desc userId s1 of
             (Some t, s2) \<Rightarrow>
               (True, (c\<lparr>board := onTaskUpdated t (board c)\<rparr>,
                       snd (api_releaseEditLock B taskId userId s2)))
           | (None, s2) \<Rightarrow> (False, (c, snd (api_releaseEditLock B taskId userId s2)))))"
| "replayOne B (UPDATE_STATUS taskId st userId) (c, s) =
     (case api_acquireLock B taskId userId s of
        (None, s1) \<Rightarrow> (False, (c, s1))
      | (Some False, s1) \<Rightarrow> (False, (onToast StatusChangeSkipped ToastError c, s1))
      | (Some True, s1) \<Rightarrow>
          (case api_updateStatus B taskId st userId s1 of
             (Some t, s2) \<Rightarrow> (True, (c\<lparr>board := onTaskUpdated t (board c)\<rparr>, s2))
           | (None, s2) \<Rightarrow> (False, (c, snd (api_releaseLock B taskId userId s2)))))"
| "replayOne B (REORDER_TASKS taskId userId orderedIds) (c, s) =
     (case api_acquireLock B taskId userId s of
        (None, s1) \<Rightarrow> (False, (c, s1))
      | (Some False, s1) \<Rightarrow> (False, (onToast ReorderSkipped ToastError c, s1))
      | (Some True, s1) \<Rightarrow>
          (case api_reorderTasks B taskId userId orderedIds s1 of
             (Some _, s2) \<Rightarrow> (True, (c, s2))
           | (None, s2) \<Rightarrow> (False, (c, snd (api_releaseLock B taskId userId s2)))))"
| "replayOne B (DELETE_TASK taskId) (c, s) =
     (case api_deleteTask B taskId s of
        (Some _, s1) \<Rightarrow> (True, (c, s1))
      | (None, s1) \<Rightarrow> (False, (c, s1)))"

text \<open>
  The body of the \<^verbatim>\<open>for (const ev of events)\<close> loop of \<^verbatim>\<open>flushQueue\<close>: replay one
  event, wait for it, and remove it from the store when it succeeded.
\<close>

definition replayStep :: "'s backend \<Rightarrow> StoredQueuedEvent \<Rightarrow> client \<times> 's \<Rightarrow> client \<times> 's" where
  "replayStep B ev w =
     (case replayOne B (payload ev) w of
        (succeeded, (c, s)) \<Rightarrow>
          if succeeded then (c\<lparr>idb := removeEvent (ev_id ev) (idb c)\<rparr>, s) else (c, s))"

fun replayLoop :: "'s backend \<Rightarrow> StoredQueuedEvent list \<Rightarrow> client \<times> 's \<Rightarrow> client \<times> 's" where
  "replayLoop B [] w = w"
| "replayLoop B (ev # evs) w = replayLoop B evs (replayStep B ev w)"

fun removeLeftovers :: "StoredQueuedEvent list \<Rightarrow> idb \<Rightarrow> idb" where
  "removeLeftovers [] q = q"
| "removeLeftovers (ev # evs) q = removeLeftovers evs (removeEvent (ev_id ev) q)"

definition finallyBlock :: "client \<Rightarrow> client" where
  "finallyBlock c = c\<lparr>isSyncing := False, isFlushing := False\<rparr>"

definition flushQueue :: "'s backend \<Rightarrow> client \<times> 's \<Rightarrow> client \<times> 's" where
  "flushQueue B w =
     (case w of (c, s) \<Rightarrow>
        if isFlushing c then (c, s)
        else
          (let c1 = c\<lparr>isFlushing := True, isSyncing := True\<rparr>;
               events = getAllEvents (idb c1)
           in if length events = 0 then (finallyBlock c1, s)
              else
                (let c2 = onToast (Syncing (length events)) ToastInfo c1;
                     (c3, s3) = replayLoop B events (c2, s);
                     remaining = countEvents (idb c3);
                     c4 = (if remaining = 0 then onToast AllSynced ToastSuccess c3
                           else
                             (let c' = onToast (Discarded remaining) ToastError c3;
                                  leftovers = getAllEvents (idb c')
                              in c'\<lparr>idb := removeLeftovers leftovers (idb c')\<rparr>));
                     c5 = c4\<lparr>queueLength := 0\<rparr>
                 in (finallyBlock c5, s3))))"

section \<open>The backend behind the wrappers\<close>

text \<open>
  The endpoints as the server of this repository answers them, over a network that always
  delivers: each request is handed to its route and the answer's status decides the reply.
  The create schema requires a non-empty title (\<^verbatim>\<open>z.string().min(1)\<close>), and so does the
  title schema when a title is sent; the ids that the browser sends are UUIDs, which is
  what the remaining schema checks ask for. The instant of the server clock, the source of
  fresh ids and the order in which a creation's notification and answer arrive are
  parameters.
\<close>

fun toReply :: "'a http \<times> db \<Rightarrow> 'a reply \<times> db" where
  "toReply (Http200 x, d) = (Ok x, d)"
| "toReply (Http201 x, d) = (Ok x, d)"
| "toReply (Http403, d) = (Rejected 403, d)"
| "toReply (Http404, d) = (Rejected 404, d)"
| "toReply (Http409 u, d) = (Rejected 409, d)"
| "toReply (Http500, d) = (Rejected 500, d)"

definition liveBackend :: "int \<Rightarrow> (db \<Rightarrow> string \<times> int) \<Rightarrow> bool \<Rightarrow> db backend" where
  "liveBackend now fresh first =
     \<lparr>post_task = (\<lambda>ttl desc d.
        if ttl = [] then (Rejected 400, d) else toReply (createTaskRoute fresh ttl desc None d)),
      patch_title = (\<lambda>k ttl desc userId d.
        if ttl = [] then (Rejected 400, d) else toReply (updateTitleRoute k (Some ttl) desc userId d)),
      patch_status = (\<lambda>k st userId d. toReply (updateStatusRoute k st userId d)),
      patch_reorder = (\<lambda>taskId userId orderedIds d. toReply (reorderRoute taskId userId orderedIds d)),
      post_lock = (\<lambda>k userId d. toReply (lockRoute now k userId d)),
      delete_lock = (\<lambda>k userId d. toReply (unlockRoute k userId d)),
      post_edit_lock = (\<lambda>k userId d. toReply (editLockRoute now k userId d)),
      delete_edit_lock = (\<lambda>k userId d. toReply (editUnlockRoute k userId d)),
      delete_task = (\<lambda>k d. toReply (deleteRoute k d)),
      notifies_first = (\<lambda>d. first)\<rparr>"

section \<open>Sample data\<close>

text \<open>
  Identifiers are UUIDs, as the database and \<^verbatim>\<open>crypto.randomUUID()\<close> produce them and as
  the request schemas demand; they are abbreviated for reading.
\<close>

abbreviation aliceId :: string where "aliceId \<equiv> ''11111111-1111-4111-8111-111111111111''"
abbreviation bobId :: string where "bobId \<equiv> ''22222222-2222-4222-8222-222222222222''"
abbreviation taskA :: string where "taskA \<equiv> ''aaaaaaaa-aaaa-4aaa-8aaa-aaaaaaaaaaa1''"
abbreviation taskB :: string where "taskB \<equiv> ''aaaaaaaa-aaaa-4aaa-8aaa-aaaaaaaaaaa2''"
abbreviation taskZ :: string where "taskZ \<equiv> ''aaaaaaaa-aaaa-4aaa-8aaa-aaaaaaaaaaa9''"
abbreviation col1 :: string where "col1 \<equiv> ''00000000-0000-4000-8000-000000000001''"
abbreviation col2 :: string where "col2 \<equiv> ''00000000-0000-4000-8000-000000000002''"
abbreviation col3 :: string where "col3 \<equiv> ''00000000-0000-4000-8000-000000000003''"
abbreviation col4 :: string where "col4 \<equiv> ''00000000-0000-4000-8000-000000000004''"
abbreviation col5 :: string where "col5 \<equiv> ''00000000-0000-4000-8000-000000000005''"
abbreviation tmp1 :: string where "tmp1 \<equiv> ''bbbbbbbb-bbbb-4bbb-8bbb-bbbbbbbbbbb1''"
abbreviation tmpA :: string where "tmpA \<equiv> ''bbbbbbbb-bbbb-4bbb-8bbb-bbbbbbbbbbba''"
abbreviation tmpB :: string where "tmpB \<equiv> ''bbbbbbbb-bbbb-4bbb-8bbb-bbbbbbbbbbbb''"
abbreviation srvId :: string where "srvId \<equiv> ''cccccccc-cccc-4ccc-8ccc-0000000000cc''"

text \<open>
  A small board in the shape of the seed script: two users and a column of tasks.
  Alice holds both locks of the first task since the instant 1000.
\<close>

definition alice :: user where
  "alice = \<lparr>user_id = aliceId, user_name = ''Alice'', user_email = ''alice@example.com''\<rparr>"

definition bob :: user where
  "bob = \<lparr>user_id = bobId, user_name = ''Bob'', user_email = ''bob@example.com''\<rparr>"

definition heldTask :: task where
  "heldTask = setEditLock aliceId 1000 (setLock aliceId 1000 (newTask (taskA, 1) ''Write unit tests'' None TODO))"

definition freeTask :: task where
  "freeTask = newTask (taskB, 2) ''Deploy to production'' None TODO"

definition sampleDb :: db where
  "sampleDb = \<lparr>tasks = [heldTask, freeTask], users = [alice, bob], emitted = [], committed = []\<rparr>"

text \<open>
  The column of scenario C: five tasks in order, the fifth being dragged by Alice, who
  holds its position lock.
\<close>

definition columnDb :: db where
  "columnDb =
     \<lparr>tasks = [newTask (col1, 1) ''Set up project repository'' None TODO,
               newTask (col2, 2) ''Design database schema'' None TODO,
               newTask (col3, 3) ''Build backend API'' None TODO,
               newTask (col4, 4) ''Build frontend UI'' None TODO,
               setLock aliceId 1000 (newTask (col5, 5) ''Write unit tests'' None TODO)],
      users = [alice, bob], emitted = [], committed = []\<rparr>"

text \<open>
  Bob's browser after a spell offline: he created a task (key 1) and then moved the first
  task to Done (key 2); his clock was set back in between, so the second entry carries the
  earlier instant. The server hands out ids that grow with the table.
\<close>

definition sampleFresh :: "db \<Rightarrow> string \<times> int" where
  "sampleFresh d =
     (''cccccccc-cccc-4ccc-8ccc-'' @ replicate (12 - length (tasks d)) CHR ''0''
        @ replicate (length (tasks d)) CHR ''c'',
      int (length (tasks d)) + 1)"

definition sampleQueue :: idb where
  "sampleQueue =
     \<lparr>rows = [\<lparr>ev_id = 1, enqueuedAt = 300, payload = CREATE_TASK ''Write documentation'' None tmp1\<rparr>,
              \<lparr>ev_id = 2, enqueuedAt = 200, payload = UPDATE_STATUS taskA DONE bobId\<rparr>],
      keygen = 2\<rparr>"

definition sampleClient :: client where
  "sampleClient =
     \<lparr>idb = sampleQueue,
      board = [include_rels [alice, bob] heldTask, include_rels [alice, bob] freeTask,
               optimisticTask tmp1 300 ''Write documentation''],
      toasts = [], isFlushing = False, isSyncing = False, queueLength = 2\<rparr>"

text \<open>
  A browser that twice created a task titled "Buy milk" while offline. The first
  placeholder was queued and then replayed against a backend that answered 500 to
  everything, so its entry was dropped and the placeholder stayed on the board; the second
  one is still queued.
\<close>

definition failingBackend :: "unit backend" where
  "failingBackend =
     \<lparr>post_task = (\<lambda>ttl desc u. (Rejected 500, u)),
      patch_title = (\<lambda>k ttl desc userId u. (Rejected 500, u)),
      patch_status = (\<lambda>k st userId u. (Rejected 500, u)),
      patch_reorder = (\<lambda>taskId userId orderedIds u. (Rejected 500, u)),
      post_lock = (\<lambda>k userId u. (Rejected 500, u)),
      delete_lock = (\<lambda>k userId u. (Rejected 500, u)),
      post_edit_lock = (\<lambda>k userId u. (Rejected 500, u)),
      delete_edit_lock = (\<lambda>k userId u. (Rejected 500, u)),
      delete_task = (\<lambda>k u. (Rejected 500, u)),
      notifies_first = (\<lambda>u. False)\<rparr>"

definition emptyClient :: client where
  "emptyClient =
     \<lparr>idb = \<lparr>rows = [], keygen = 0\<rparr>, board = [], toasts = [],
      isFlushing = False, isSyncing = False, queueLength = 0\<rparr>"

definition staleClient :: client where
  "staleClient =
     handleSubmitOffline tmpB 200 ''Buy milk''
       (fst (flushQueue failingBackend
               (handleSubmitOffline tmpA 100 ''Buy milk'' emptyClient, ())))"

section \<open>Properties of the database primitives\<close>

lemma findUnique_Some_id: "findUnique k ts = Some t \<Longrightarrow> task_id t = k \<and> t \<in> set ts"
  unfolding findUnique_def by (auto simp: find_Some_iff)

lemma findUnique_None_iff: "findUnique k ts = None \<longleftrightarrow> k \<notin> task_id ` set ts"
  unfolding findUnique_def by (auto simp: find_None_iff)

lemma findUnique_distinct:
  "distinct (map task_id ts) \<Longrightarrow> t \<in> set ts \<Longrightarrow> findUnique (task_id t) ts = Some t"
  unfolding findUnique_def by (induction ts) auto

lemma update_found:
  "findUnique k ts = Some t \<Longrightarrow>
   update k f ts = Inr (map (\<lambda>t. if task_id t = k then f t else t) ts)"
  by (simp add: update_def)

lemma findUnique_map_at:
  assumes "\<And>t. task_id (f t) = task_id t"
  shows "findUnique k (map (\<lambda>t. if task_id t = j then f t else t) ts) =
         (if k = j then map_option f (findUnique k ts) else findUnique k ts)"
  using assms unfolding findUnique_def by (induction ts) auto

lemma findUnique_map_all:
  assumes "\<And>t. task_id (f t) = task_id t"
  shows "findUnique k (map f ts) = map_option f (findUnique k ts)"
  using assms unfolding findUnique_def by (induction ts) auto

lemma ids_map_at:
  assumes "\<And>t. task_id (f t) = task_id t"
  shows "map task_id (map (\<lambda>t. if task_id t = j then f t else t) ts) = map task_id ts"
  using assms by (induction ts) auto

lemma findUser_id: "findUser k us = Some u \<Longrightarrow> user_id u = k"
  unfolding findUser_def by (auto simp: find_Some_iff)

lemma findUser_in: "k \<in> user_id ` set us \<Longrightarrow> findUser k us \<noteq> None"
  unfolding findUser_def by (auto simp: find_None_iff)

lemma clearLock_id [simp]: "task_id (clearLock t) = task_id t"
  by (simp add: clearLock_def)

lemma clearEditLock_id [simp]: "task_id (clearEditLock t) = task_id t"
  by (simp add: clearEditLock_def)

lemma setLock_id [simp]: "task_id (setLock h now t) = task_id t"
  by (simp add: setLock_def)

lemma setEditLock_id [simp]: "task_id (setEditLock h now t) = task_id t"
  by (simp add: setEditLock_def)

section \<open>Lock manager\<close>

lemma acquireLock_free:
  assumes "findUnique taskId (tasks d) = Some t" "\<not> isLocked t"
  shows "acquireLock now taskId h d =
           Inr (\<lparr>success = True, lockedBy = None\<rparr>,
                d\<lparr>tasks := map (\<lambda>t. if task_id t = taskId then setLock h now t else t) (tasks d),
                  emitted := emitted d @ [LockAcquired taskId (findUser h (users d))]\<rparr>)"
  using assms by (simp add: acquireLock_def update_found emit_def)

lemma releaseLock_held:
  assumes "findUnique taskId (tasks d) = Some t" "isLocked t" "lockAcquiredBy t = Some h"
  shows "releaseLock taskId h d =
           Inr (True, d\<lparr>tasks := map (\<lambda>t. if task_id t = taskId then clearLock t else t) (tasks d),
                        emitted := emitted d @ [LockReleased taskId]\<rparr>)"
  using assms by (simp add: releaseLock_def update_found emit_def)

lemma releaseLock_not_held:
  assumes "\<not> (\<exists>t. findUnique taskId (tasks d) = Some t \<and> isLocked t \<and> lockAcquiredBy t = Some h)"
  shows "releaseLock taskId h d = Inr (False, d)"
  using assms by (auto simp: releaseLock_def split: option.splits)

lemma releaseEditLock_held:
  assumes "findUnique taskId (tasks d) = Some t" "isEditLocked t" "editLockAcquiredBy t = Some h"
  shows "releaseEditLock taskId h d =
           Inr (True, d\<lparr>tasks := map (\<lambda>t. if task_id t = taskId then clearEditLock t else t) (tasks d),
                        emitted := emitted d @ [EditLockReleased taskId]\<rparr>)"
  using assms by (simp add: releaseEditLock_def update_found emit_def)

lemma releaseEditLock_not_held:
  assumes "\<not> (\<exists>t. findUnique taskId (tasks d) = Some t \<and> isEditLocked t \<and> editLockAcquiredBy t = Some h)"
  shows "releaseEditLock taskId h d = Inr (False, d)"
  using assms by (auto simp: releaseEditLock_def split: option.splits)

lemma forceReleaseLock_held:
  assumes "findUnique taskId (tasks d) = Some t" "isLocked t"
  shows "forceReleaseLock taskId d =
           Inr (True, d\<lparr>tasks := map (\<lambda>t. if task_id t = taskId then clearLock t else t) (tasks d),
                        emitted := emitted d @ [LockExpired taskId]\<rparr>)"
  using assms by (simp add: forceReleaseLock_def update_found emit_def)

lemma forceReleaseLock_free:
  assumes "\<not> (\<exists>t. findUnique taskId (tasks d) = Some t \<and> isLocked t)"
  shows "forceReleaseLock taskId d = Inr (False, d)"
  using assms by (auto simp: forceReleaseLock_def split: option.splits)

lemma forceReleaseEditLock_held:
  assumes "findUnique taskId (tasks d) = Some t" "isEditLocked t"
  shows "forceReleaseEditLock taskId d =
           Inr (True, d\<lparr>tasks := map (\<lambda>t. if task_id t = taskId then clearEditLock t else t) (tasks d),
                        emitted := emitted d @ [EditLockExpired taskId]\<rparr>)"
  using assms by (simp add: forceReleaseEditLock_def update_found emit_def)

lemma forceReleaseEditLock_free:
  assumes "\<not> (\<exists>t. findUnique taskId (tasks d) = Some t \<and> isEditLocked t)"
  shows "forceReleaseEditLock taskId d = Inr (False, d)"
  using assms by (auto simp: forceReleaseEditLock_def split: option.splits)

text \<open>
  C1. When another holder \<open>h1\<close> holds the position lock of an existing task, an acquire by
  \<open>h2\<close> is denied, the denial carries the user row of \<open>h1\<close>, and the database (lock columns
  included) is what it was; the same for the edit lock.
\<close>

theorem acquire_denied_by_other_holder:
  assumes "findUnique taskId (tasks d) = Some t" and "h2 \<noteq> h1"
  shows "(isLocked t \<and> lockAcquiredBy t = Some h1 \<longrightarrow>
            acquireLock now taskId h2 d =
              Inr (\<lparr>success = False, lockedBy = findUser h1 (users d)\<rparr>, d))
       \<and> (isEditLocked t \<and> editLockAcquiredBy t = Some h1 \<longrightarrow>
            acquireEditLock now taskId h2 d =
              Inr (\<lparr>success = False, lockedBy = findUser h1 (users d)\<rparr>, d))
       \<and> (\<forall>u. findUser h1 (users d) = Some u \<longrightarrow> user_id u = h1)
       \<and> (h1 \<in> user_id ` set (users d) \<longrightarrow> findUser h1 (users d) \<noteq> None)"
  using assms findUser_in[of h1 "users d"]
  by (auto simp: acquireLock_def acquireEditLock_def relUser_def findUser_id)

text \<open>
  C3. Acquiring a lock that the caller already holds succeeds and writes nothing: the task
  table is the same, so the acquisition instant and every other lock column keep their
  values; only the notification is sent again. The same for the edit lock.
\<close>

theorem reacquire_is_idempotent:
  assumes "findUnique taskId (tasks d) = Some t"
  shows "(isLocked t \<and> lockAcquiredBy t = Some h \<longrightarrow>
            (\<exists>d'. acquireLock now taskId h d = Inr (\<lparr>success = True, lockedBy = None\<rparr>, d')
                 \<and> tasks d' = tasks d \<and> findUnique taskId (tasks d') = Some t
                 \<and> users d' = users d
                 \<and> emitted d' = emitted d @ [LockAcquired taskId (findUser h (users d))]))
       \<and> (isEditLocked t \<and> editLockAcquiredBy t = Some h \<longrightarrow>
            (\<exists>d'. acquireEditLock now taskId h d = Inr (\<lparr>success = True, lockedBy = None\<rparr>, d')
                 \<and> tasks d' = tasks d \<and> findUnique taskId (tasks d') = Some t
                 \<and> users d' = users d
                 \<and> emitted d' = emitted d @ [EditLockAcquired taskId (findUser h (users d))]))"
  using assms by (auto simp: acquireLock_def acquireEditLock_def emit_def)

text \<open>
  C7. A release by \<open>h\<close> returns true exactly when the lock is held by \<open>h\<close>; it then frees
  that lock of that task, touches nothing else and announces the release. In every other
  case (held by someone else, free, or no such task) it returns false and the database is
  what it was. The same for the edit lock.
\<close>

theorem release_only_by_holder:
  "(\<forall>t. findUnique taskId (tasks d) = Some t \<and> isLocked t \<and> lockAcquiredBy t = Some h \<longrightarrow>
      (\<exists>d'. releaseLock taskId h d = Inr (True, d')
           \<and> findUnique taskId (tasks d') =
               Some (t\<lparr>isLocked := False, lockAcquiredBy := None, lockAcquireTime := None\<rparr>)
           \<and> (\<forall>k. k \<noteq> taskId \<longrightarrow> findUnique k (tasks d') = findUnique k (tasks d))
           \<and> emitted d' = emitted d @ [LockReleased taskId]))
 \<and> ((\<nexists>t. findUnique taskId (tasks d) = Some t \<and> isLocked t \<and> lockAcquiredBy t = Some h) \<longrightarrow>
      releaseLock taskId h d = Inr (False, d))
 \<and> (\<forall>t. findUnique taskId (tasks d) = Some t \<and> isEditLocked t \<and> editLockAcquiredBy t = Some h \<longrightarrow>
      (\<exists>d'. releaseEditLock taskId h d = Inr (True, d')
           \<and> findUnique taskId (tasks d') =
               Some (t\<lparr>isEditLocked := False, editLockAcquiredBy := None, editLockAcquireTime := None\<rparr>)
           \<and> (\<forall>k. k \<noteq> taskId \<longrightarrow> findUnique k (tasks d') = findUnique k (tasks d))
           \<and> emitted d' = emitted d @ [EditLockReleased taskId]))
 \<and> ((\<nexists>t. findUnique taskId (tasks d) = Some t \<and> isEditLocked t \<and> editLockAcquiredBy t = Some h) \<longrightarrow>
      releaseEditLock taskId h d = Inr (False, d))"
proof (intro conjI allI impI)
  fix t
  assume t: "findUnique taskId (tasks d) = Some t \<and> isLocked t \<and> lockAcquiredBy t = Some h"
  then have "releaseLock taskId h d =
      Inr (True, d\<lparr>tasks := map (\<lambda>t. if task_id t = taskId then clearLock t else t) (tasks d),
                   emitted := emitted d @ [LockReleased taskId]\<rparr>)"
    by (intro releaseLock_held) auto
  then show "\<exists>d'. releaseLock taskId h d = Inr (True, d')
           \<and> findUnique taskId (tasks d') =
               Some (t\<lparr>isLocked := False, lockAcquiredBy := None, lockAcquireTime := None\<rparr>)
           \<and> (\<forall>k. k \<noteq> taskId \<longrightarrow> findUnique k (tasks d') = findUnique k (tasks d))
           \<and> emitted d' = emitted d @ [LockReleased taskId]"
    using t by (simp add: findUnique_map_at) (simp add: clearLock_def)
next
  assume "\<nexists>t. findUnique taskId (tasks d) = Some t \<and> isLocked t \<and> lockAcquiredBy t = Some h"
  then show "releaseLock taskId h d = Inr (False, d)" by (rule releaseLock_not_held)
next
  fix t
  assume t: "findUnique taskId (tasks d) = Some t \<and> isEditLocked t \<and> editLockAcquiredBy t = Some h"
  then have "releaseEditLock taskId h d =
      Inr (True, d\<lparr>tasks := map (\<lambda>t. if task_id t = taskId then clearEditLock t else t) (tasks d),
                   emitted := emitted d @ [EditLockReleased taskId]\<rparr>)"
    by (intro releaseEditLock_held) auto
  then show "\<exists>d'. releaseEditLock taskId h d = Inr (True, d')
           \<and> findUnique taskId (tasks d') =
               Some (t\<lparr>isEditLocked := False, editLockAcquiredBy := None, editLockAcquireTime := None\<rparr>)
           \<and> (\<forall>k. k \<noteq> taskId \<longrightarrow> findUnique k (tasks d') = findUnique k (tasks d))
           \<and> emitted d' = emitted d @ [EditLockReleased taskId]"
    using t by (simp add: findUnique_map_at) (simp add: clearEditLock_def)
next
  assume "\<nexists>t. findUnique taskId (tasks d) = Some t \<and> isEditLocked t \<and> editLockAcquiredBy t = Some h"
  then show "releaseEditLock taskId h d = Inr (False, d)" by (rule releaseEditLock_not_held)
qed

text \<open>
  C8. A forced release of a held lock succeeds whoever holds it, frees the lock and sends
  the expiry notification, which is not the release notification; repeated at once it
  returns false and changes nothing, as it does on any lock that is free. The same for
  the edit lock.
\<close>

theorem force_release_is_unconditional:
  assumes "findUnique taskId (tasks d) = Some t"
  shows "(isLocked t \<longrightarrow>
           (\<exists>d'. forceReleaseLock taskId d = Inr (True, d')
                \<and> findUnique taskId (tasks d') =
                    Some (t\<lparr>isLocked := False, lockAcquiredBy := None, lockAcquireTime := None\<rparr>)
                \<and> emitted d' = emitted d @ [LockExpired taskId]
                \<and> LockExpired taskId \<noteq> LockReleased taskId
                \<and> forceReleaseLock taskId d' = Inr (False, d')))
       \<and> (\<not> isLocked t \<longrightarrow> forceReleaseLock taskId d = Inr (False, d))
       \<and> (isEditLocked t \<longrightarrow>
           (\<exists>d'. forceReleaseEditLock taskId d = Inr (True, d')
                \<and> findUnique taskId (tasks d') =
                    Some (t\<lparr>isEditLocked := False, editLockAcquiredBy := None,
                            editLockAcquireTime := None\<rparr>)
                \<and> emitted d' = emitted d @ [EditLockExpired taskId]
                \<and> EditLockExpired taskId \<noteq> EditLockReleased taskId
                \<and> forceReleaseEditLock taskId d' = Inr (False, d')))
       \<and> (\<not> isEditLocked t \<longrightarrow> forceReleaseEditLock taskId d = Inr (False, d))"
proof (intro conjI impI)
  assume l: "isLocked t"
  let ?d' = "d\<lparr>tasks := map (\<lambda>t. if task_id t = taskId then clearLock t else t) (tasks d),
               emitted := emitted d @ [LockExpired taskId]\<rparr>"
  have r: "forceReleaseLock taskId d = Inr (True, ?d')"
    by (rule forceReleaseLock_held[OF assms l])
  have f: "findUnique taskId (tasks ?d') = Some (clearLock t)"
    using assms by (simp add: findUnique_map_at)
  have "\<not> (\<exists>t. findUnique taskId (tasks ?d') = Some t \<and> isLocked t)"
    using f by (auto simp: clearLock_def)
  then have "forceReleaseLock taskId ?d' = Inr (False, ?d')"
    by (rule forceReleaseLock_free)
  with r f show "\<exists>d'. forceReleaseLock taskId d = Inr (True, d')
                \<and> findUnique taskId (tasks d') =
                    Some (t\<lparr>isLocked := False, lockAcquiredBy := None, lockAcquireTime := None\<rparr>)
                \<and> emitted d' = emitted d @ [LockExpired taskId]
                \<and> LockExpired taskId \<noteq> LockReleased taskId
                \<and> forceReleaseLock taskId d' = Inr (False, d')"
    by (simp add: clearLock_def)
next
  assume "\<not> isLocked t"
  then show "forceReleaseLock taskId d = Inr (False, d)"
    using assms by (intro forceReleaseLock_free) auto
next
  assume l: "isEditLocked t"
  let ?d' = "d\<lparr>tasks := map (\<lambda>t. if task_id t = taskId then clearEditLock t else t) (tasks d),
               emitted := emitted d @ [EditLockExpired taskId]\<rparr>"
  have r: "forceReleaseEditLock taskId d = Inr (True, ?d')"
    by (rule forceReleaseEditLock_held[OF assms l])
  have f: "findUnique taskId (tasks ?d') = Some (clearEditLock t)"
    using assms by (simp add: findUnique_map_at)
  have "\<not> (\<exists>t. findUnique taskId (tasks ?d') = Some t \<and> isEditLocked t)"
    using f by (auto simp: clearEditLock_def)
  then have "forceReleaseEditLock taskId ?d' = Inr (False, ?d')"
    by (rule forceReleaseEditLock_free)
  with r f show "\<exists>d'. forceReleaseEditLock taskId d = Inr (True, d')
                \<and> findUnique taskId (tasks d') =
                    Some (t\<lparr>isEditLocked := False, editLockAcquiredBy := None,
                            editLockAcquireTime := None\<rparr>)
                \<and> emitted d' = emitted d @ [EditLockExpired taskId]
                \<and> EditLockExpired taskId \<noteq> EditLockReleased taskId
                \<and> forceReleaseEditLock taskId d' = Inr (False, d')"
    by (simp add: clearEditLock_def)
next
  assume "\<not> isEditLocked t"
  then show "forceReleaseEditLock taskId d = Inr (False, d)"
    using assms by (intro forceReleaseEditLock_free) auto
qed


lemma sample_heldTask:
  "findUnique taskA (tasks sampleDb) = Some heldTask"
  by (simp add: sampleDb_def findUnique_def heldTask_def setLock_def setEditLock_def newTask_def)

lemma sample_freeTask:
  "findUnique taskB (tasks sampleDb) = Some freeTask"
  by (simp add: sampleDb_def findUnique_def heldTask_def freeTask_def setLock_def setEditLock_def newTask_def)

lemma heldTask_locks:
  "isLocked heldTask" "lockAcquiredBy heldTask = Some aliceId" "lockAcquireTime heldTask = Some 1000"
  "isEditLocked heldTask" "editLockAcquiredBy heldTask = Some aliceId"
  "editLockAcquireTime heldTask = Some 1000" "task_id heldTask = taskA"
  by (simp_all add: heldTask_def setLock_def setEditLock_def newTask_def)

lemma sample_users:
  "findUser aliceId (users sampleDb) = Some alice" "findUser bobId (users sampleDb) = Some bob"
  by (simp_all add: sampleDb_def findUser_def alice_def bob_def)

theorem acquire_denied_by_other_holder_witness:
  "acquireLock 5000 taskA bobId sampleDb = Inr (\<lparr>success = False, lockedBy = Some alice\<rparr>, sampleDb)
 \<and> acquireEditLock 5000 taskA bobId sampleDb = Inr (\<lparr>success = False, lockedBy = Some alice\<rparr>, sampleDb)
 \<and> user_id alice = aliceId"
proof -
  have n: "bobId \<noteq> aliceId" by simp
  from acquire_denied_by_other_holder[OF sample_heldTask n, of 5000]
  show ?thesis by (simp add: heldTask_locks sample_users)
qed

theorem reacquire_is_idempotent_witness:
  "(\<exists>d'. acquireLock 5000 taskA aliceId sampleDb = Inr (\<lparr>success = True, lockedBy = None\<rparr>, d')
        \<and> findUnique taskA (tasks d') = Some heldTask \<and> lockAcquireTime heldTask = Some 1000)
 \<and> (\<exists>d'. acquireEditLock 5000 taskA aliceId sampleDb = Inr (\<lparr>success = True, lockedBy = None\<rparr>, d')
        \<and> findUnique taskA (tasks d') = Some heldTask \<and> editLockAcquireTime heldTask = Some 1000)"
  using reacquire_is_idempotent[OF sample_heldTask, of "aliceId" 5000]
  by (simp add: heldTask_locks) blast

theorem release_only_by_holder_witness:
  "(\<exists>d'. releaseLock taskA aliceId sampleDb = Inr (True, d')
        \<and> map_option isLocked (findUnique taskA (tasks d')) = Some False)
 \<and> releaseLock taskA bobId sampleDb = Inr (False, sampleDb)
 \<and> releaseLock taskB aliceId sampleDb = Inr (False, sampleDb)
 \<and> releaseLock taskZ aliceId sampleDb = Inr (False, sampleDb)
 \<and> (\<exists>d'. releaseEditLock taskA aliceId sampleDb = Inr (True, d')
        \<and> map_option isEditLocked (findUnique taskA (tasks d')) = Some False)
 \<and> releaseEditLock taskA bobId sampleDb = Inr (False, sampleDb)"
proof -
  have f2: "isLocked freeTask = False" by (simp add: freeTask_def newTask_def)
  have f9: "findUnique taskZ (tasks sampleDb) = None"
    by (simp add: sampleDb_def findUnique_def heldTask_def freeTask_def setLock_def setEditLock_def newTask_def)
  show ?thesis
    using release_only_by_holder[of "taskA" sampleDb "aliceId"]
      release_only_by_holder[of "taskA" sampleDb "bobId"]
      release_only_by_holder[of "taskB" sampleDb "aliceId"]
      release_only_by_holder[of "taskZ" sampleDb "aliceId"]
    by (simp add: sample_heldTask sample_freeTask heldTask_locks f2 f9) force
qed

theorem force_release_is_unconditional_witness:
  "(\<exists>d'. forceReleaseLock taskA sampleDb = Inr (True, d')
        \<and> map_option isLocked (findUnique taskA (tasks d')) = Some False
        \<and> emitted d' = [LockExpired taskA]
        \<and> forceReleaseLock taskA d' = Inr (False, d'))
 \<and> forceReleaseLock taskB sampleDb = Inr (False, sampleDb)
 \<and> (\<exists>d'. forceReleaseEditLock taskA sampleDb = Inr (True, d')
        \<and> map_option isEditLocked (findUnique taskA (tasks d')) = Some False
        \<and> emitted d' = [EditLockExpired taskA]
        \<and> forceReleaseEditLock taskA d' = Inr (False, d'))
 \<and> forceReleaseEditLock taskB sampleDb = Inr (False, sampleDb)"
proof -
  have f2: "isLocked freeTask = False" "isEditLocked freeTask = False"
    by (simp_all add: freeTask_def newTask_def)
  have e: "emitted sampleDb = []" by (simp add: sampleDb_def)
  show ?thesis
    using force_release_is_unconditional[OF sample_heldTask]
      force_release_is_unconditional[OF sample_freeTask]
    by (simp add: heldTask_locks f2 e) force
qed


section \<open>Expiry scheduler\<close>

lemma promiseAll_forceReleaseLock:
  assumes "distinct ks"
    and "\<forall>k\<in>set ks. \<exists>t. findUnique k (tasks d) = Some t \<and> isLocked t"
  shows "promiseAll forceReleaseLock ks d =
           (False, d\<lparr>tasks := map (\<lambda>t. if task_id t \<in> set ks then clearLock t else t) (tasks d),
                     emitted := emitted d @ map LockExpired ks\<rparr>)"
  using assms
proof (induction ks arbitrary: d)
  case Nil
  then show ?case by simp
next
  case (Cons k ks)
  from Cons.prems obtain t where t: "findUnique k (tasks d) = Some t" "isLocked t" by auto
  let ?d1 = "d\<lparr>tasks := map (\<lambda>t. if task_id t = k then clearLock t else t) (tasks d),
                emitted := emitted d @ [LockExpired k]\<rparr>"
  have step: "forceReleaseLock k d = Inr (True, ?d1)"
    by (rule forceReleaseLock_held[OF t])
  have pre: "\<forall>k'\<in>set ks. \<exists>t. findUnique k' (tasks ?d1) = Some t \<and> isLocked t"
    using Cons.prems by (auto simp: findUnique_map_at)
  have dist: "distinct ks" and notin: "k \<notin> set ks" using Cons.prems by auto
  have "promiseAll forceReleaseLock ks ?d1 =
          (False, ?d1\<lparr>tasks := map (\<lambda>t. if task_id t \<in> set ks then clearLock t else t) (tasks ?d1),
                     emitted := emitted ?d1 @ map LockExpired ks\<rparr>)"
    by (rule Cons.IH[OF dist pre])
  moreover have "map (\<lambda>t. if task_id t \<in> set ks then clearLock t else t) (tasks ?d1) =
                 map (\<lambda>t. if task_id t \<in> set (k # ks) then clearLock t else t) (tasks d)"
    using notin by auto
  ultimately show ?case using step by simp
qed

lemma promiseAll_forceReleaseEditLock:
  assumes "distinct ks"
    and "\<forall>k\<in>set ks. \<exists>t. findUnique k (tasks d) = Some t \<and> isEditLocked t"
  shows "promiseAll forceReleaseEditLock ks d =
           (False, d\<lparr>tasks := map (\<lambda>t. if task_id t \<in> set ks then clearEditLock t else t) (tasks d),
                     emitted := emitted d @ map EditLockExpired ks\<rparr>)"
  using assms
proof (induction ks arbitrary: d)
  case Nil
  then show ?case by simp
next
  case (Cons k ks)
  from Cons.prems obtain t where t: "findUnique k (tasks d) = Some t" "isEditLocked t" by auto
  let ?d1 = "d\<lparr>tasks := map (\<lambda>t. if task_id t = k then clearEditLock t else t) (tasks d),
                emitted := emitted d @ [EditLockExpired k]\<rparr>"
  have step: "forceReleaseEditLock k d = Inr (True, ?d1)"
    by (rule forceReleaseEditLock_held[OF t])
  have pre: "\<forall>k'\<in>set ks. \<exists>t. findUnique k' (tasks ?d1) = Some t \<and> isEditLocked t"
    using Cons.prems by (auto simp: findUnique_map_at)
  have dist: "distinct ks" and notin: "k \<notin> set ks" using Cons.prems by auto
  have "promiseAll forceReleaseEditLock ks ?d1 =
          (False, ?d1\<lparr>tasks := map (\<lambda>t. if task_id t \<in> set ks then clearEditLock t else t) (tasks ?d1),
                     emitted := emitted ?d1 @ map EditLockExpired ks\<rparr>)"
    by (rule Cons.IH[OF dist pre])
  moreover have "map (\<lambda>t. if task_id t \<in> set ks then clearEditLock t else t) (tasks ?d1) =
                 map (\<lambda>t. if task_id t \<in> set (k # ks) then clearEditLock t else t) (tasks d)"
    using notin by auto
  ultimately show ?case using step by simp
qed

lemma selected_ids:
  assumes "distinct (map task_id ts)" "t \<in> set ts"
  shows "task_id t \<in> set (map task_id (filter P ts)) \<longleftrightarrow> P t"
proof
  assume "task_id t \<in> set (map task_id (filter P ts))"
  then obtain t' where t': "t' \<in> set ts" "P t'" "task_id t' = task_id t" by auto
  with assms have "t' = t" by (meson distinct_map inj_onD)
  with t' show "P t" by simp
next
  assume "P t" with assms show "task_id t \<in> set (map task_id (filter P ts))" by auto
qed

lemma sweep_drag:
  assumes "distinct (map task_id (tasks d))"
  shows "promiseAll forceReleaseLock (map task_id (filter (dragWhere th) (tasks d))) d =
     (False, d\<lparr>tasks := map (\<lambda>t. if dragWhere th t then clearLock t else t) (tasks d),
               emitted := emitted d @ map LockExpired (map task_id (filter (dragWhere th) (tasks d)))\<rparr>)"
proof -
  let ?ks = "map task_id (filter (dragWhere th) (tasks d))"
  have d: "distinct ?ks" using assms by (simp add: distinct_map_filter)
  have pre: "\<forall>k\<in>set ?ks. \<exists>t. findUnique k (tasks d) = Some t \<and> isLocked t"
    using assms by (auto simp: findUnique_distinct dragWhere_def)
  have eq: "map (\<lambda>t. if task_id t \<in> set ?ks then clearLock t else t) (tasks d) =
            map (\<lambda>t. if dragWhere th t then clearLock t else t) (tasks d)"
    by (rule map_cong[OF refl]) (simp only: selected_ids[OF assms])
  show ?thesis using promiseAll_forceReleaseLock[OF d pre] eq by simp
qed

lemma sweep_edit:
  assumes "distinct (map task_id (tasks d))"
  shows "promiseAll forceReleaseEditLock (map task_id (filter (editWhere th) (tasks d))) d =
     (False, d\<lparr>tasks := map (\<lambda>t. if editWhere th t then clearEditLock t else t) (tasks d),
               emitted := emitted d @ map EditLockExpired (map task_id (filter (editWhere th) (tasks d)))\<rparr>)"
proof -
  let ?ks = "map task_id (filter (editWhere th) (tasks d))"
  have d: "distinct ?ks" using assms by (simp add: distinct_map_filter)
  have pre: "\<forall>k\<in>set ?ks. \<exists>t. findUnique k (tasks d) = Some t \<and> isEditLocked t"
    using assms by (auto simp: findUnique_distinct editWhere_def)
  have eq: "map (\<lambda>t. if task_id t \<in> set ?ks then clearEditLock t else t) (tasks d) =
            map (\<lambda>t. if editWhere th t then clearEditLock t else t) (tasks d)"
    by (rule map_cong[OF refl]) (simp only: selected_ids[OF assms])
  show ?thesis using promiseAll_forceReleaseEditLock[OF d pre] eq by simp
qed

lemma editWhere_clearLock [simp]: "editWhere th (clearLock t) = editWhere th t"
  by (simp add: editWhere_def clearLock_def)

lemma dragWhere_spec:
  "dragWhere (now - LOCK_EXPIRY_MS) t = expired_spec now (isLocked t) (lockAcquireTime t)"
  by (simp add: dragWhere_def expired_spec_def lt_def LOCK_EXPIRY_MS_def)

lemma editWhere_spec:
  "editWhere (now - LOCK_EXPIRY_MS) t = expired_spec now (isEditLocked t) (editLockAcquireTime t)"
  by (simp add: editWhere_def expired_spec_def lt_def LOCK_EXPIRY_MS_def)

lemma sweep_spec_alt:
  "sweep_spec now t =
     (if editWhere (now - LOCK_EXPIRY_MS) t
      then clearEditLock (if dragWhere (now - LOCK_EXPIRY_MS) t then clearLock t else t)
      else (if dragWhere (now - LOCK_EXPIRY_MS) t then clearLock t else t))"
  by (simp add: sweep_spec_def dragWhere_spec editWhere_spec clearLock_def clearEditLock_def)

lemma sweep_spec_id [simp]: "task_id (sweep_spec now t) = task_id t"
  by (simp add: sweep_spec_def)

lemma tick_char:
  assumes "distinct (map task_id (tasks d))"
  shows "tick now d =
           d\<lparr>tasks := map (sweep_spec now) (tasks d),
             emitted := emitted d
                @ map LockExpired (map task_id (filter (dragWhere (now - LOCK_EXPIRY_MS)) (tasks d)))
                @ map EditLockExpired (map task_id (filter (editWhere (now - LOCK_EXPIRY_MS)) (tasks d)))\<rparr>"
proof -
  let ?th = "now - LOCK_EXPIRY_MS"
  let ?ks = "map task_id (filter (dragWhere ?th) (tasks d))"
  let ?d1 = "d\<lparr>tasks := map (\<lambda>t. if dragWhere ?th t then clearLock t else t) (tasks d),
                emitted := emitted d @ map LockExpired ?ks\<rparr>"
  have first: "(if length ?ks > 0 then promiseAll forceReleaseLock ?ks d else (False, d)) = (False, ?d1)"
  proof (cases "length ?ks > 0")
    case True
    then show ?thesis using sweep_drag[OF assms, of ?th] by simp
  next
    case False
    then have e: "?ks = []" by blast
    then have "filter (dragWhere ?th) (tasks d) = []" by (simp only: map_is_Nil_conv)
    then have "\<forall>t\<in>set (tasks d). \<not> dragWhere ?th t" by (simp only: filter_empty_conv)
    then have m: "map (\<lambda>t. if dragWhere ?th t then clearLock t else t) (tasks d) = tasks d"
      by (simp add: map_idI)
    show ?thesis unfolding e m by simp
  qed
  have dist1: "distinct (map task_id (tasks ?d1))"
    using assms by (simp add: comp_def if_distrib[of task_id] cong: if_cong)
  let ?es = "map task_id (filter (editWhere ?th) (tasks ?d1))"
  let ?d2 = "?d1\<lparr>tasks := map (\<lambda>t. if editWhere ?th t then clearEditLock t else t) (tasks ?d1),
                  emitted := emitted ?d1 @ map EditLockExpired ?es\<rparr>"
  have second: "(if length ?es > 0 then snd (promiseAll forceReleaseEditLock ?es ?d1) else ?d1) = ?d2"
  proof (cases "length ?es > 0")
    case True
    then show ?thesis using sweep_edit[OF dist1, of ?th] by simp
  next
    case False
    then have e: "?es = []" by blast
    then have "filter (editWhere ?th) (tasks ?d1) = []" by (simp only: map_is_Nil_conv)
    then have "\<forall>t\<in>set (tasks ?d1). \<not> editWhere ?th t" by (simp only: filter_empty_conv)
    then have m: "map (\<lambda>t. if editWhere ?th t then clearEditLock t else t) (tasks ?d1) = tasks ?d1"
      by (simp add: map_idI)
    show ?thesis unfolding e m by simp
  qed
  have es: "?es = map task_id (filter (editWhere ?th) (tasks d))"
    by (simp add: filter_map comp_def if_distrib[of "editWhere ?th"] if_distrib[of task_id] cong: if_cong)
  have "tick now d =
     (case (if length ?ks > 0 then promiseAll forceReleaseLock ?ks d else (False, d)) of
        (rejected, d1) \<Rightarrow>
          if rejected then d1
          else if length (map task_id (filter (editWhere ?th) (tasks d1))) > 0
               then snd (promiseAll forceReleaseEditLock (map task_id (filter (editWhere ?th) (tasks d1))) d1)
               else d1)"
    unfolding tick_def Let_def ..
  also have "\<dots> = ?d2"
    by (simp only: first prod.case if_False second)
  finally have tk: "tick now d = ?d2" .
  have "tasks ?d2 = map (sweep_spec now) (tasks d)"
    by (simp add: sweep_spec_alt comp_def)
  moreover have "emitted ?d2 = emitted d @ map LockExpired ?ks
                    @ map EditLockExpired (map task_id (filter (editWhere ?th) (tasks d)))"
    using es by simp
  ultimately show ?thesis using tk by simp
qed


lemma sweep_spec_kept:
  "\<not> expired_spec now (isLocked t) (lockAcquireTime t) \<Longrightarrow>
   isLocked (sweep_spec now t) = isLocked t
   \<and> lockAcquiredBy (sweep_spec now t) = lockAcquiredBy t
   \<and> lockAcquireTime (sweep_spec now t) = lockAcquireTime t"
  by (simp add: sweep_spec_def Let_def)

lemma sweep_spec_freed:
  "expired_spec now (isLocked t) (lockAcquireTime t) \<Longrightarrow>
   \<not> isLocked (sweep_spec now t)
   \<and> lockAcquiredBy (sweep_spec now t) = None
   \<and> lockAcquireTime (sweep_spec now t) = None"
  by (simp add: sweep_spec_def Let_def)

lemma tick_lookup:
  assumes "distinct (map task_id (tasks d))"
  shows "findUnique k (tasks (tick now d)) = map_option (sweep_spec now) (findUnique k (tasks d))"
  by (simp add: tick_char[OF assms] findUnique_map_all)

lemma tick_emitted:
  assumes "distinct (map task_id (tasks d))"
  shows "emitted (tick now d) = emitted d @
           (map LockExpired (map task_id (filter (dragWhere (now - LOCK_EXPIRY_MS)) (tasks d)))
            @ map EditLockExpired (map task_id (filter (editWhere (now - LOCK_EXPIRY_MS)) (tasks d))))"
  by (simp add: tick_char[OF assms])

lemma tick_distinct:
  assumes "distinct (map task_id (tasks d))"
  shows "distinct (map task_id (tasks (tick now d)))"
  using assms by (simp add: tick_char[OF assms] comp_def)

lemma tick_no_expiry_event:
  assumes "distinct (map task_id (tasks d))" "findUnique k (tasks d) = Some t"
    and "\<not> expired_spec now (isLocked t) (lockAcquireTime t)"
  shows "LockExpired k \<notin> set (map LockExpired (map task_id (filter (dragWhere (now - LOCK_EXPIRY_MS)) (tasks d)))
                         @ map EditLockExpired (map task_id (filter (editWhere (now - LOCK_EXPIRY_MS)) (tasks d))))"
proof -
  have "\<And>t'. t' \<in> set (tasks d) \<Longrightarrow> task_id t' = k \<Longrightarrow> \<not> dragWhere (now - LOCK_EXPIRY_MS) t'"
  proof -
    fix t' assume "t' \<in> set (tasks d)" "task_id t' = k"
    then have "findUnique k (tasks d) = Some t'" using findUnique_distinct[OF assms(1)] by blast
    with assms(2,3) show "\<not> dragWhere (now - LOCK_EXPIRY_MS) t'" by (simp add: dragWhere_spec)
  qed
  then show ?thesis by auto
qed

lemma tick_expiry_event:
  assumes "findUnique k (tasks d) = Some t" "expired_spec now (isLocked t) (lockAcquireTime t)"
  shows "LockExpired k \<in> set (map LockExpired (map task_id (filter (dragWhere (now - LOCK_EXPIRY_MS)) (tasks d)))
                         @ map EditLockExpired (map task_id (filter (editWhere (now - LOCK_EXPIRY_MS)) (tasks d))))"
proof -
  from assms(1) have "t \<in> set (tasks d)" "task_id t = k" by (simp_all add: findUnique_Some_id)
  moreover have "dragWhere (now - LOCK_EXPIRY_MS) t" using assms(2) by (simp add: dragWhere_spec)
  ultimately show ?thesis by force
qed

text \<open>
  C4. On a table with unique task ids, a tick at \<open>now\<close> frees exactly the locks that are
  held with an acquisition instant earlier than \<open>now\<close> minus two minutes, position and
  edit lock alike, and announces each of them. A position lock acquired at \<open>t0\<close> is still
  held, with its instant, after a tick 29 seconds later, and the tick 121 seconds after
  \<open>t0\<close> frees it and emits the expiry notification of that task.
\<close>

theorem tick_releases_exactly_expired:
  assumes "distinct (map task_id (tasks d))"
  shows "tasks (tick now d) = map (sweep_spec now) (tasks d)
       \<and> emitted (tick now d) = emitted d
            @ map LockExpired
                (map task_id (filter (\<lambda>t. expired_spec now (isLocked t) (lockAcquireTime t)) (tasks d)))
            @ map EditLockExpired
                (map task_id (filter (\<lambda>t. expired_spec now (isEditLocked t) (editLockAcquireTime t)) (tasks d)))
       \<and> (\<forall>k h t0 t. findUnique k (tasks d) = Some t \<and> \<not> isLocked t \<longrightarrow>
            (\<exists>d1 t2 es2 t3 es3.
               acquireLock t0 k h d = Inr (\<lparr>success = True, lockedBy = None\<rparr>, d1)
             \<and> findUnique k (tasks (tick (t0 + 29 * 1000) d1)) = Some t2
             \<and> isLocked t2 \<and> lockAcquiredBy t2 = Some h \<and> lockAcquireTime t2 = Some t0
             \<and> emitted (tick (t0 + 29 * 1000) d1) = emitted d1 @ es2 \<and> LockExpired k \<notin> set es2
             \<and> findUnique k (tasks (tick (t0 + 121 * 1000) (tick (t0 + 29 * 1000) d1))) = Some t3
             \<and> \<not> isLocked t3 \<and> lockAcquiredBy t3 = None \<and> lockAcquireTime t3 = None
             \<and> emitted (tick (t0 + 121 * 1000) (tick (t0 + 29 * 1000) d1)) =
                 emitted (tick (t0 + 29 * 1000) d1) @ es3
             \<and> LockExpired k \<in> set es3))"
proof (intro conjI allI impI)
  show "tasks (tick now d) = map (sweep_spec now) (tasks d)"
    by (simp add: tick_char[OF assms])
  show "emitted (tick now d) = emitted d
            @ map LockExpired
                (map task_id (filter (\<lambda>t. expired_spec now (isLocked t) (lockAcquireTime t)) (tasks d)))
            @ map EditLockExpired
                (map task_id (filter (\<lambda>t. expired_spec now (isEditLocked t) (editLockAcquireTime t)) (tasks d)))"
    by (simp add: tick_char[OF assms] dragWhere_spec[abs_def] editWhere_spec[abs_def])
next
  fix k h t0 t
  assume a: "findUnique k (tasks d) = Some t \<and> \<not> isLocked t"
  let ?d1 = "d\<lparr>tasks := map (\<lambda>t. if task_id t = k then setLock h t0 t else t) (tasks d),
                emitted := emitted d @ [LockAcquired k (findUser h (users d))]\<rparr>"
  let ?n2 = "t0 + 29 * 1000" and ?n3 = "t0 + 121 * 1000"
  let ?d2 = "tick ?n2 ?d1"
  let ?d3 = "tick ?n3 ?d2"
  let ?t1 = "setLock h t0 t"
  let ?t2 = "sweep_spec ?n2 ?t1"
  let ?t3 = "sweep_spec ?n3 ?t2"
  let ?ev = "\<lambda>now d. map LockExpired (map task_id (filter (dragWhere (now - LOCK_EXPIRY_MS)) (tasks d)))
                  @ map EditLockExpired (map task_id (filter (editWhere (now - LOCK_EXPIRY_MS)) (tasks d)))"
  have acq: "acquireLock t0 k h d = Inr (\<lparr>success = True, lockedBy = None\<rparr>, ?d1)"
    using a by (intro acquireLock_free) auto
  have ids1: "map task_id (tasks ?d1) = map task_id (tasks d)"
    by (simp add: comp_def if_distrib[of task_id] cong: if_cong)
  have dist1: "distinct (map task_id (tasks ?d1))"
    using assms by (simp only: ids1)
  have dist2: "distinct (map task_id (tasks ?d2))"
    by (rule tick_distinct[OF dist1])
  have f1: "findUnique k (tasks ?d1) = Some ?t1"
    using a by (simp add: findUnique_map_at)
  have f2: "findUnique k (tasks ?d2) = Some ?t2"
    by (simp only: tick_lookup[OF dist1] f1 option.map)
  have f3: "findUnique k (tasks ?d3) = Some ?t3"
    by (simp only: tick_lookup[OF dist2] f2 option.map)
  have fresh: "\<not> expired_spec ?n2 (isLocked ?t1) (lockAcquireTime ?t1)"
    by (simp add: expired_spec_def setLock_def)
  have held2: "isLocked ?t2 \<and> lockAcquiredBy ?t2 = Some h \<and> lockAcquireTime ?t2 = Some t0"
    using sweep_spec_kept[OF fresh] by (simp add: setLock_def)
  have stale: "expired_spec ?n3 (isLocked ?t2) (lockAcquireTime ?t2)"
    using held2 by (simp add: expired_spec_def)
  have free3: "\<not> isLocked ?t3 \<and> lockAcquiredBy ?t3 = None \<and> lockAcquireTime ?t3 = None"
    by (rule sweep_spec_freed[OF stale])
  have e2: "emitted ?d2 = emitted ?d1 @ ?ev ?n2 ?d1"
    by (rule tick_emitted[OF dist1])
  have e3: "emitted ?d3 = emitted ?d2 @ ?ev ?n3 ?d2"
    by (rule tick_emitted[OF dist2])
  have n2: "LockExpired k \<notin> set (?ev ?n2 ?d1)"
    by (rule tick_no_expiry_event[OF dist1 f1 fresh])
  have n3: "LockExpired k \<in> set (?ev ?n3 ?d2)"
    by (rule tick_expiry_event[OF f2 stale])
  from acq f2 held2 e2 n2 f3 free3 e3 n3
  show "\<exists>d1 t2 es2 t3 es3.
               acquireLock t0 k h d = Inr (\<lparr>success = True, lockedBy = None\<rparr>, d1)
             \<and> findUnique k (tasks (tick (t0 + 29 * 1000) d1)) = Some t2
             \<and> isLocked t2 \<and> lockAcquiredBy t2 = Some h \<and> lockAcquireTime t2 = Some t0
             \<and> emitted (tick (t0 + 29 * 1000) d1) = emitted d1 @ es2 \<and> LockExpired k \<notin> set es2
             \<and> findUnique k (tasks (tick (t0 + 121 * 1000) (tick (t0 + 29 * 1000) d1))) = Some t3
             \<and> \<not> isLocked t3 \<and> lockAcquiredBy t3 = None \<and> lockAcquireTime t3 = None
             \<and> emitted (tick (t0 + 121 * 1000) (tick (t0 + 29 * 1000) d1)) =
                 emitted (tick (t0 + 29 * 1000) d1) @ es3
             \<and> LockExpired k \<in> set es3"
    by blast
qed


lemma sample_distinct: "distinct (map task_id (tasks sampleDb))"
  by (simp add: sampleDb_def heldTask_def freeTask_def setLock_def setEditLock_def newTask_def)

theorem tick_releases_exactly_expired_witness:
  "tasks (tick 200000 sampleDb) = [newTask (taskA, 1) ''Write unit tests'' None TODO, freeTask]
 \<and> emitted (tick 200000 sampleDb) = [LockExpired taskA, EditLockExpired taskA]
 \<and> (\<exists>d1. acquireLock 5000 taskB bobId sampleDb = Inr (\<lparr>success = True, lockedBy = None\<rparr>, d1)
        \<and> map_option isLocked (findUnique taskB (tasks (tick 34000 d1))) = Some True
        \<and> map_option isLocked (findUnique taskB (tasks (tick 126000 (tick 34000 d1)))) = Some False
        \<and> LockExpired taskB \<in> set (emitted (tick 126000 (tick 34000 d1))))"
proof -
  note T = tick_releases_exactly_expired[OF sample_distinct, of 200000]
  have free: "\<not> isLocked freeTask" by (simp add: freeTask_def newTask_def)
  have a: "tasks (tick 200000 sampleDb) = [newTask (taskA, 1) ''Write unit tests'' None TODO, freeTask]"
    using T by (simp add: sampleDb_def heldTask_def freeTask_def setLock_def setEditLock_def
        newTask_def sweep_spec_def expired_spec_def)
  have b: "emitted (tick 200000 sampleDb) = [LockExpired taskA, EditLockExpired taskA]"
    using T by (simp add: sampleDb_def heldTask_def freeTask_def setLock_def setEditLock_def
        newTask_def expired_spec_def)
  from T have "\<exists>d1 t2 es2 t3 es3.
               acquireLock 5000 taskB bobId sampleDb = Inr (\<lparr>success = True, lockedBy = None\<rparr>, d1)
             \<and> findUnique taskB (tasks (tick (5000 + 29 * 1000) d1)) = Some t2
             \<and> isLocked t2 \<and> lockAcquiredBy t2 = Some bobId \<and> lockAcquireTime t2 = Some 5000
             \<and> emitted (tick (5000 + 29 * 1000) d1) = emitted d1 @ es2 \<and> LockExpired taskB \<notin> set es2
             \<and> findUnique taskB (tasks (tick (5000 + 121 * 1000) (tick (5000 + 29 * 1000) d1))) = Some t3
             \<and> \<not> isLocked t3 \<and> lockAcquiredBy t3 = None \<and> lockAcquireTime t3 = None
             \<and> emitted (tick (5000 + 121 * 1000) (tick (5000 + 29 * 1000) d1)) =
                 emitted (tick (5000 + 29 * 1000) d1) @ es3
             \<and> LockExpired taskB \<in> set es3"
    using sample_freeTask free by blast
  then obtain d1 t2 es2 t3 es3 where
      "acquireLock 5000 taskB bobId sampleDb = Inr (\<lparr>success = True, lockedBy = None\<rparr>, d1)"
      "findUnique taskB (tasks (tick 34000 d1)) = Some t2" "isLocked t2"
      "findUnique taskB (tasks (tick 126000 (tick 34000 d1))) = Some t3" "\<not> isLocked t3"
      "emitted (tick 126000 (tick 34000 d1)) = emitted (tick 34000 d1) @ es3"
      "LockExpired taskB \<in> set es3"
    by auto
  then have "\<exists>d1. acquireLock 5000 taskB bobId sampleDb = Inr (\<lparr>success = True, lockedBy = None\<rparr>, d1)
        \<and> map_option isLocked (findUnique taskB (tasks (tick 34000 d1))) = Some True
        \<and> map_option isLocked (findUnique taskB (tasks (tick 126000 (tick 34000 d1)))) = Some False
        \<and> LockExpired taskB \<in> set (emitted (tick 126000 (tick 34000 d1)))"
    by auto
  with a b show ?thesis by blast
qed


section \<open>Reorder coordinator\<close>

lemma transaction_explicit:
  assumes "distinct (map fst ws)" "\<forall>k\<in>fst ` set ws. findUnique k ts \<noteq> None"
  shows "transaction ws ts =
           Inr (map (\<lambda>t. case map_of ws (task_id t) of None \<Rightarrow> t | Some v \<Rightarrow> t\<lparr>orderId := v\<rparr>) ts)"
  using assms
proof (induction ws arbitrary: ts)
  case Nil
  then show ?case by simp
next
  case (Cons w ws)
  obtain k v where w: "w = (k, v)" by (cases w)
  let ?ts1 = "map (\<lambda>t. if task_id t = k then t\<lparr>orderId := v\<rparr> else t) ts"
  from Cons.prems w obtain t where t: "findUnique k ts = Some t" by auto
  have u: "update k (\<lambda>t. t\<lparr>orderId := v\<rparr>) ts = Inr ?ts1"
    by (rule update_found[OF t])
  have notin: "k \<notin> fst ` set ws" and dist: "distinct (map fst ws)"
    using Cons.prems w by auto
  have pre: "\<forall>k'\<in>fst ` set ws. findUnique k' ?ts1 \<noteq> None"
    using Cons.prems by (auto simp: findUnique_map_at)
  have none: "map_of ws k = None" using notin by (simp add: map_of_eq_None_iff)
  have "transaction ws ?ts1 =
          Inr (map (\<lambda>t. case map_of ws (task_id t) of None \<Rightarrow> t | Some v \<Rightarrow> t\<lparr>orderId := v\<rparr>) ?ts1)"
    by (rule Cons.IH[OF dist pre])
  also have "map (\<lambda>t. case map_of ws (task_id t) of None \<Rightarrow> t | Some v \<Rightarrow> t\<lparr>orderId := v\<rparr>) ?ts1 =
             map (\<lambda>t. case map_of (w # ws) (task_id t) of None \<Rightarrow> t | Some v \<Rightarrow> t\<lparr>orderId := v\<rparr>) ts"
    using none w by auto
  finally show ?case using u w by simp
qed

lemma batch_keys:
  "map fst (map (\<lambda>(index, k). (k, f index)) (enumerate n ks)) = ks"
  by (induction ks arbitrary: n) auto

lemma batch_map_of:
  "distinct ks \<Longrightarrow> i < length ks \<Longrightarrow>
   map_of (map (\<lambda>(index, k). (k, f index)) (enumerate n ks)) (ks ! i) = Some (f (n + i))"
proof (induction ks arbitrary: n i)
  case Nil
  then show ?case by simp
next
  case (Cons k ks)
  show ?case
  proof (cases i)
    case 0
    then show ?thesis by simp
  next
    case (Suc j)
    with Cons.prems have "ks ! j \<noteq> k" "j < length ks" "distinct ks" by auto
    with Cons.IH[of j "Suc n"] Suc show ?thesis by simp
  qed
qed

lemma batch_map_of_None:
  assumes "k \<notin> set ks"
  shows "map_of (map (\<lambda>(index, k). (k, f index)) (enumerate n ks)) k = None"
proof -
  have "fst ` set (map (\<lambda>(index, k). (k, f index)) (enumerate n ks)) = set ks"
    using batch_keys[of f n ks] by (metis set_map)
  with assms show ?thesis by (simp only: map_of_eq_None_iff) simp
qed


lemma assign_id [simp]:
  "task_id (case m of None \<Rightarrow> t | Some v \<Rightarrow> t\<lparr>orderId := v\<rparr>) = task_id t"
  by (simp split: option.split)

lemma assign_lookup:
  assumes "distinct ks" "i < length ks" "findUnique (ks ! i) ts = Some t"
  shows "map_option orderId
           (findUnique (ks ! i)
              (map (\<lambda>t. case map_of (map (\<lambda>(index, k). (k, f index)) (enumerate 0 ks)) (task_id t) of
                          None \<Rightarrow> t | Some v \<Rightarrow> t\<lparr>orderId := v\<rparr>) ts)) = Some (f i)"
proof -
  have "task_id t = ks ! i" using assms(3) by (simp add: findUnique_Some_id)
  then show ?thesis
    using batch_map_of[OF assms(1,2), of f 0] assms(3)
    by (simp add: findUnique_map_all)
qed

lemma assign_lookup_other:
  assumes "k \<notin> set ks"
  shows "findUnique k
           (map (\<lambda>t. case map_of (map (\<lambda>(index, k). (k, f index)) (enumerate 0 ks)) (task_id t) of
                       None \<Rightarrow> t | Some v \<Rightarrow> t\<lparr>orderId := v\<rparr>) ts) = findUnique k ts"
proof (cases "findUnique k ts")
  case None
  then show ?thesis by (simp add: findUnique_map_all)
next
  case (Some t)
  then have "task_id t = k" by (simp add: findUnique_Some_id)
  then show ?thesis using Some batch_map_of_None[OF assms, of f 0]
    by (simp add: findUnique_map_all)
qed

lemma batch_ok:
  assumes "distinct ks" "\<forall>k\<in>set ks. findUnique k ts \<noteq> None"
  shows "transaction (map (\<lambda>(index, k). (k, f index)) (enumerate 0 ks)) ts =
           Inr (map (\<lambda>t. case map_of (map (\<lambda>(index, k). (k, f index)) (enumerate 0 ks)) (task_id t) of
                          None \<Rightarrow> t | Some v \<Rightarrow> t\<lparr>orderId := v\<rparr>) ts)"
proof (rule transaction_explicit)
  show "distinct (map fst (map (\<lambda>(index, k). (k, f index)) (enumerate 0 ks)))"
    using assms(1) by (simp only: batch_keys)
  have "fst ` set (map (\<lambda>(index, k). (k, f index)) (enumerate 0 ks)) = set ks"
    using batch_keys[of f 0 ks] by (metis set_map)
  then show "\<forall>k\<in>fst ` set (map (\<lambda>(index, k). (k, f index)) (enumerate 0 ks)). findUnique k ts \<noteq> None"
    using assms(2) by simp
qed

lemma findManyIn_dense:
  assumes "distinct (map task_id ts)" "distinct ks"
    and "\<forall>i<length ks. \<exists>t. findUnique (ks ! i) ts = Some t \<and> orderId t = g i"
  shows "set (findManyIn ks ts) = {(ks ! i, g i) | i. i < length ks}"
    and "length (findManyIn ks ts) = length ks"
proof -
  show "set (findManyIn ks ts) = {(ks ! i, g i) | i. i < length ks}"
  proof (intro set_eqI iffI)
    fix p assume "p \<in> set (findManyIn ks ts)"
    then obtain t where t: "t \<in> set ts" "task_id t \<in> set ks" "p = (task_id t, orderId t)"
      by (auto simp: findManyIn_def)
    then obtain i where i: "i < length ks" "ks ! i = task_id t" by (auto simp: in_set_conv_nth)
    have "findUnique (ks ! i) ts = Some t" using findUnique_distinct[OF assms(1) t(1)] i by simp
    with assms(3) i have "orderId t = g i" by auto
    with t i have "p = (ks ! i, g i)" by simp
    with i show "p \<in> {(ks ! i, g i) | i. i < length ks}" by blast
  next
    fix p assume "p \<in> {(ks ! i, g i) | i. i < length ks}"
    then obtain i where i: "i < length ks" "p = (ks ! i, g i)" by auto
    with assms(3) obtain t where t: "findUnique (ks ! i) ts = Some t" "orderId t = g i" by auto
    then have "t \<in> set ts" "task_id t = ks ! i" by (simp_all add: findUnique_Some_id)
    with i t show "p \<in> set (findManyIn ks ts)" by (force simp: findManyIn_def)
  qed
  have d: "distinct (map task_id (filter (\<lambda>t. task_id t \<in> set ks) ts))"
    using assms(1) by (simp add: distinct_map_filter)
  have "set (map task_id (filter (\<lambda>t. task_id t \<in> set ks) ts)) = set ks"
  proof (intro set_eqI iffI)
    fix k assume "k \<in> set (map task_id (filter (\<lambda>t. task_id t \<in> set ks) ts))"
    then show "k \<in> set ks" by auto
  next
    fix k assume "k \<in> set ks"
    then obtain i where i: "i < length ks" "ks ! i = k" by (auto simp: in_set_conv_nth)
    with assms(3) obtain t where "findUnique k ts = Some t" by auto
    then have "t \<in> set ts" "task_id t = k" by (simp_all add: findUnique_Some_id)
    with \<open>k \<in> set ks\<close> show "k \<in> set (map task_id (filter (\<lambda>t. task_id t \<in> set ks) ts))" by force
  qed
  with d assms(2) have "length (map task_id (filter (\<lambda>t. task_id t \<in> set ks) ts)) = length ks"
    by (metis distinct_card)
  then show "length (findManyIn ks ts) = length ks" by (simp add: findManyIn_def)
qed


lemma dense_bijection:
  assumes "distinct ks" "\<forall>i<length ks. f (ks ! i) = int i + 1"
  shows "bij_betw f (set ks) {1..int (length ks)}"
  unfolding bij_betw_def
proof
  show "inj_on f (set ks)"
  proof (rule inj_onI)
    fix x y assume "x \<in> set ks" "y \<in> set ks" "f x = f y"
    then obtain i j where ij: "i < length ks" "ks ! i = x" "j < length ks" "ks ! j = y"
      by (auto simp: in_set_conv_nth)
    with assms(2) \<open>f x = f y\<close> have "int i + 1 = int j + 1" by metis
    then have "i = j" by simp
    with ij show "x = y" by simp
  qed
  show "f ` set ks = {1..int (length ks)}"
  proof (intro set_eqI iffI)
    fix n assume "n \<in> f ` set ks"
    then obtain i where "i < length ks" "n = f (ks ! i)" by (auto simp: in_set_conv_nth)
    with assms(2) show "n \<in> {1..int (length ks)}" by auto
  next
    fix n assume n: "n \<in> {1..int (length ks)}"
    then have i: "nat (n - 1) < length ks" by auto
    with assms(2) have "f (ks ! nat (n - 1)) = int (nat (n - 1)) + 1" by blast
    also have "\<dots> = n" using n by auto
    finally show "n \<in> f ` set ks" using i by (metis imageI nth_mem)
  qed
qed

lemma release_keeps_order:
  "map_option orderId (findUnique k (map (\<lambda>t. if task_id t = j then clearLock t else t) X)) =
   map_option orderId (findUnique k X)"
  by (simp add: findUnique_map_all option.map_comp comp_def clearLock_def if_distrib[of orderId]
      cong: if_cong)

lemma release_keeps_ids:
  "map task_id (map (\<lambda>t. if task_id t = j then clearLock t else t) X) = map task_id X"
  by (simp add: comp_def if_distrib[of task_id] cong: if_cong)

lemma assign_keeps_ids:
  "map task_id (map (\<lambda>t. case map_of ws (task_id t) of None \<Rightarrow> t | Some v \<Rightarrow> t\<lparr>orderId := v\<rparr>) X) =
   map task_id X"
  by (simp add: comp_def)

lemma assign_keeps_lock:
  "isLocked (case m of None \<Rightarrow> t | Some v \<Rightarrow> t\<lparr>orderId := v\<rparr>) = isLocked t"
  "lockAcquiredBy (case m of None \<Rightarrow> t | Some v \<Rightarrow> t\<lparr>orderId := v\<rparr>) = lockAcquiredBy t"
  by (simp_all split: option.split)

text \<open>
  C2. A reorder by the holder of the dragged task's position lock, over a duplicate-free
  list of \<open>N\<close> existing ids, commits exactly two batches, in this order: the first writes
  order index 100000 + \<open>i\<close> to the \<open>i\<close>-th id (counted from 1) and turns the table into
  \<open>ts1\<close>, the second writes \<open>i\<close> to the \<open>i\<close>-th id and turns \<open>ts1\<close> into \<open>ts2\<close>. The route
  then releases the lock, answers 200 and broadcasts the pairs it reads back; the table it
  leaves is \<open>ts2\<close> with that lock freed. In it the order indices of the listed ids are a
  bijection onto \<open>{1..N}\<close> in the order of the list; when task ids are unique in the
  table, the pairs of the answer are exactly these.
\<close>

theorem reorder_two_phase_dense:
  assumes "findUnique taskId (tasks d) = Some taskCheck"
    and "isLocked taskCheck" and "lockAcquiredBy taskCheck = Some userId"
    and "distinct orderedIds"
    and "\<forall>k\<in>set orderedIds. findUnique k (tasks d) \<noteq> None"
  shows "\<exists>ts1 ts2 d'.
      reorderRoute taskId userId orderedIds d = (Http200 (findManyIn orderedIds (tasks d')), d')
    \<and> committed d' = committed d @ [spreadBatch orderedIds, compactBatch orderedIds]
    \<and> length (spreadBatch orderedIds) = length orderedIds
    \<and> length (compactBatch orderedIds) = length orderedIds
    \<and> (\<forall>i<length orderedIds.
          spreadBatch orderedIds ! i = (orderedIds ! i, 100000 + (int i + 1))
        \<and> compactBatch orderedIds ! i = (orderedIds ! i, int i + 1))
    \<and> transaction (spreadBatch orderedIds) (tasks d) = Inr ts1
    \<and> (\<forall>i<length orderedIds.
          map_option orderId (findUnique (orderedIds ! i) ts1) = Some (100000 + (int i + 1)))
    \<and> transaction (compactBatch orderedIds) ts1 = Inr ts2
    \<and> (\<forall>i<length orderedIds.
          map_option orderId (findUnique (orderedIds ! i) ts2) = Some (int i + 1))
    \<and> tasks d' =
          map (\<lambda>t. if task_id t = taskId
                    then t\<lparr>isLocked := False, lockAcquiredBy := None, lockAcquireTime := None\<rparr>
                    else t) ts2
    \<and> users d' = users d
    \<and> emitted d' = emitted d @ [LockReleased taskId, TaskReordered (findManyIn orderedIds (tasks d'))]
    \<and> (\<forall>i<length orderedIds.
          map_option orderId (findUnique (orderedIds ! i) (tasks d')) = Some (int i + 1))
    \<and> (\<forall>k. k \<notin> set orderedIds \<longrightarrow>
          map_option orderId (findUnique k (tasks d')) = map_option orderId (findUnique k (tasks d)))
    \<and> bij_betw (\<lambda>k. orderId (the (findUnique k (tasks d'))))
         (set orderedIds) {1..int (length orderedIds)}
    \<and> (distinct (map task_id (tasks d)) \<longrightarrow>
          set (findManyIn orderedIds (tasks d')) =
            {(orderedIds ! i, int i + 1) | i. i < length orderedIds}
        \<and> length (findManyIn orderedIds (tasks d')) = length orderedIds)"
proof -
  let ?N = "length orderedIds"
  let ?S = "map (\<lambda>(index, k). (k, OFFSET + int index + 1)) (enumerate 0 orderedIds)"
  let ?C = "map (\<lambda>(index, k). (k, int index + 1)) (enumerate 0 orderedIds)"
  let ?spr = "\<lambda>t. case map_of ?S (task_id t) of None \<Rightarrow> t | Some v \<Rightarrow> t\<lparr>orderId := v\<rparr>"
  let ?cmp = "\<lambda>t. case map_of ?C (task_id t) of None \<Rightarrow> t | Some v \<Rightarrow> t\<lparr>orderId := v\<rparr>"
  let ?rel = "\<lambda>t. if task_id t = taskId then clearLock t else t"
  define ts1 where "ts1 = map ?spr (tasks d)"
  define ts2 where "ts2 = map ?cmp ts1"
  define ts3 where "ts3 = map ?rel ts2"
  define out where "out = findManyIn orderedIds ts3"
  define d1 where "d1 = d\<lparr>tasks := ts1, committed := committed d @ [?S]\<rparr>"
  define d2 where "d2 = d\<lparr>tasks := ts2, committed := committed d @ [?S, ?C]\<rparr>"
  define d' where "d' = d\<lparr>tasks := ts3, emitted := emitted d @ [LockReleased taskId, TaskReordered out],
      committed := committed d @ [?S, ?C]\<rparr>"
  have S: "spreadBatch orderedIds = ?S" by (simp add: spreadBatch_def)
  have C: "compactBatch orderedIds = ?C" by (simp add: compactBatch_def)
  have lens: "length ?S = ?N" "length ?C = ?N" by simp_all
  have nth: "\<forall>i<?N. ?S ! i = (orderedIds ! i, 100000 + (int i + 1))
                   \<and> ?C ! i = (orderedIds ! i, int i + 1)"
    by (simp add: nth_enumerate_eq OFFSET_def)
  have t1: "transaction ?S (tasks d) = Inr ts1"
    unfolding ts1_def by (rule batch_ok[OF assms(4,5)])
  have ex1: "\<forall>k\<in>set orderedIds. findUnique k ts1 \<noteq> None"
    using assms(5) unfolding ts1_def by (simp add: findUnique_map_all)
  have t2: "transaction ?C ts1 = Inr ts2"
    unfolding ts2_def by (rule batch_ok[OF assms(4) ex1])
  have c1: "commit ?S d = Inr d1"
    by (simp add: commit_def t1 d1_def)
  have c2: "commit ?C d1 = Inr d2"
    by (simp add: commit_def d1_def t2 d2_def)
  have p1: "\<forall>i<?N. map_option orderId (findUnique (orderedIds ! i) ts1) = Some (100000 + (int i + 1))"
  proof (intro allI impI)
    fix i assume i: "i < ?N"
    then have "orderedIds ! i \<in> set orderedIds" by simp
    with assms(5) obtain t where "findUnique (orderedIds ! i) (tasks d) = Some t" by blast
    from assign_lookup[OF assms(4) i this, of "\<lambda>index. OFFSET + int index + 1"]
    show "map_option orderId (findUnique (orderedIds ! i) ts1) = Some (100000 + (int i + 1))"
      unfolding ts1_def by (simp add: OFFSET_def)
  qed
  have p2: "\<forall>i<?N. map_option orderId (findUnique (orderedIds ! i) ts2) = Some (int i + 1)"
  proof (intro allI impI)
    fix i assume i: "i < ?N"
    then have "orderedIds ! i \<in> set orderedIds" by simp
    with ex1 obtain t where "findUnique (orderedIds ! i) ts1 = Some t" by blast
    from assign_lookup[OF assms(4) i this, of "\<lambda>index. int index + 1"]
    show "map_option orderId (findUnique (orderedIds ! i) ts2) = Some (int i + 1)"
      unfolding ts2_def .
  qed
  have held2: "findUnique taskId (tasks d2) = Some (?cmp (?spr taskCheck))"
    using assms(1) unfolding d2_def ts2_def ts1_def by (simp add: findUnique_map_all)
  have l2: "isLocked (?cmp (?spr taskCheck))" "lockAcquiredBy (?cmp (?spr taskCheck)) = Some userId"
    using assms(2,3) by (simp_all only: assign_keeps_lock)
  have rel: "releaseLock taskId userId d2 =
               Inr (True, d\<lparr>tasks := ts3, emitted := emitted d @ [LockReleased taskId],
                             committed := committed d @ [?S, ?C]\<rparr>)"
    using releaseLock_held[OF held2 l2] unfolding ts3_def by (simp add: d2_def)
  have route: "reorderRoute taskId userId orderedIds d = (Http200 out, d')"
    unfolding reorderRoute_def S C Let_def
    by (simp only: assms(1,2,3) c1 c2 rel option.case sum.case prod.case simp_thms if_False)
       (simp add: out_def d'_def emit_def)
  have td: "tasks d' = ts3" by (simp add: d'_def)
  have tied: "tasks d' =
          map (\<lambda>t. if task_id t = taskId
                    then t\<lparr>isLocked := False, lockAcquiredBy := None, lockAcquireTime := None\<rparr>
                    else t) ts2"
    unfolding td ts3_def by (simp add: clearLock_def)
  have us: "users d' = users d" by (simp add: d'_def)
  have cm: "committed d' = committed d @ [?S, ?C]" by (simp add: d'_def)
  have p3: "\<forall>i<?N. map_option orderId (findUnique (orderedIds ! i) (tasks d')) = Some (int i + 1)"
    using p2 unfolding td ts3_def by (simp only: release_keeps_order)
  have other: "\<forall>k. k \<notin> set orderedIds \<longrightarrow>
          map_option orderId (findUnique k (tasks d')) = map_option orderId (findUnique k (tasks d))"
  proof (intro allI impI)
    fix k assume k: "k \<notin> set orderedIds"
    have "findUnique k ts2 = findUnique k ts1"
      unfolding ts2_def by (rule assign_lookup_other[OF k])
    also have "\<dots> = findUnique k (tasks d)"
      unfolding ts1_def by (rule assign_lookup_other[OF k])
    finally show "map_option orderId (findUnique k (tasks d')) = map_option orderId (findUnique k (tasks d))"
      unfolding td ts3_def by (simp only: release_keeps_order)
  qed
  have f: "\<forall>i<?N. orderId (the (findUnique (orderedIds ! i) (tasks d'))) = int i + 1"
  proof (intro allI impI)
    fix i assume "i < ?N"
    with p3 have "map_option orderId (findUnique (orderedIds ! i) (tasks d')) = Some (int i + 1)"
      by blast
    then show "orderId (the (findUnique (orderedIds ! i) (tasks d'))) = int i + 1"
      by (cases "findUnique (orderedIds ! i) (tasks d')") simp_all
  qed
  have bij: "bij_betw (\<lambda>k. orderId (the (findUnique k (tasks d')))) (set orderedIds) {1..int ?N}"
    by (rule dense_bijection[OF assms(4) f])
  have out: "out = findManyIn orderedIds (tasks d')" by (simp add: out_def td)
  have em: "emitted d' = emitted d @ [LockReleased taskId, TaskReordered (findManyIn orderedIds (tasks d'))]"
    unfolding out[symmetric] by (simp add: d'_def)
  have resp: "distinct (map task_id (tasks d)) \<longrightarrow>
          set (findManyIn orderedIds (tasks d')) = {(orderedIds ! i, int i + 1) | i. i < ?N}
        \<and> length (findManyIn orderedIds (tasks d')) = ?N"
  proof
    assume dist: "distinct (map task_id (tasks d))"
    have "map task_id (tasks d') = map task_id (tasks d)"
      unfolding td ts3_def ts2_def ts1_def by (simp only: release_keeps_ids assign_keeps_ids)
    then have dist': "distinct (map task_id (tasks d'))" using dist by (simp only:)
    have pre: "\<forall>i<?N. \<exists>t. findUnique (orderedIds ! i) (tasks d') = Some t \<and> orderId t = int i + 1"
    proof (intro allI impI)
      fix i assume "i < ?N"
      with p3 have "map_option orderId (findUnique (orderedIds ! i) (tasks d')) = Some (int i + 1)"
        by blast
      then show "\<exists>t. findUnique (orderedIds ! i) (tasks d') = Some t \<and> orderId t = int i + 1"
        by (cases "findUnique (orderedIds ! i) (tasks d')") simp_all
    qed
    from findManyIn_dense[OF dist' assms(4) pre]
    show "set (findManyIn orderedIds (tasks d')) = {(orderedIds ! i, int i + 1) | i. i < ?N}
        \<and> length (findManyIn orderedIds (tasks d')) = ?N" by simp
  qed
  have "reorderRoute taskId userId orderedIds d = (Http200 (findManyIn orderedIds (tasks d')), d')
    \<and> committed d' = committed d @ [?S, ?C]
    \<and> length ?S = ?N \<and> length ?C = ?N
    \<and> (\<forall>i<?N. ?S ! i = (orderedIds ! i, 100000 + (int i + 1)) \<and> ?C ! i = (orderedIds ! i, int i + 1))
    \<and> transaction ?S (tasks d) = Inr ts1
    \<and> (\<forall>i<?N. map_option orderId (findUnique (orderedIds ! i) ts1) = Some (100000 + (int i + 1)))
    \<and> transaction ?C ts1 = Inr ts2
    \<and> (\<forall>i<?N. map_option orderId (findUnique (orderedIds ! i) ts2) = Some (int i + 1))
    \<and> tasks d' =
          map (\<lambda>t. if task_id t = taskId
                    then t\<lparr>isLocked := False, lockAcquiredBy := None, lockAcquireTime := None\<rparr>
                    else t) ts2
    \<and> users d' = users d
    \<and> emitted d' = emitted d @ [LockReleased taskId, TaskReordered (findManyIn orderedIds (tasks d'))]
    \<and> (\<forall>i<?N. map_option orderId (findUnique (orderedIds ! i) (tasks d')) = Some (int i + 1))
    \<and> (\<forall>k. k \<notin> set orderedIds \<longrightarrow>
          map_option orderId (findUnique k (tasks d')) = map_option orderId (findUnique k (tasks d)))
    \<and> bij_betw (\<lambda>k. orderId (the (findUnique k (tasks d')))) (set orderedIds) {1..int ?N}
    \<and> (distinct (map task_id (tasks d)) \<longrightarrow>
          set (findManyIn orderedIds (tasks d')) = {(orderedIds ! i, int i + 1) | i. i < ?N}
        \<and> length (findManyIn orderedIds (tasks d')) = ?N)"
    using route[unfolded out] cm lens nth t1 p1 t2 p2 tied us em p3 other bij resp
    by (intro conjI)
  then show ?thesis
    unfolding S C by (intro exI[of _ ts1] exI[of _ ts2] exI[of _ d'])
qed

theorem reorder_two_phase_dense_witness:
  "\<exists>d'. reorderRoute col5 aliceId [col5, col1, col2, col3, col4] columnDb =
          (Http200 (findManyIn [col5, col1, col2, col3, col4] (tasks d')), d')
      \<and> map_option orderId (findUnique col5 (tasks d')) = Some 1
      \<and> map_option orderId (findUnique col1 (tasks d')) = Some 2
      \<and> map_option orderId (findUnique col2 (tasks d')) = Some 3
      \<and> map_option orderId (findUnique col3 (tasks d')) = Some 4
      \<and> map_option orderId (findUnique col4 (tasks d')) = Some 5
      \<and> committed d' =
          [[(col5, 100001), (col1, 100002), (col2, 100003), (col3, 100004), (col4, 100005)],
           [(col5, 1), (col1, 2), (col2, 3), (col3, 4), (col4, 5)]]"
proof -
  let ?ids = "[col5, col1, col2, col3, col4]"
  let ?dragged = "setLock aliceId 1000 (newTask (col5, 5) ''Write unit tests'' None TODO)"
  have a1: "findUnique col5 (tasks columnDb) = Some ?dragged"
    by (simp add: columnDb_def findUnique_def newTask_def setLock_def)
  have a2: "isLocked ?dragged" and a3: "lockAcquiredBy ?dragged = Some aliceId"
    by (simp_all add: setLock_def)
  have a4: "distinct ?ids" by simp
  have a5: "\<forall>k\<in>set ?ids. findUnique k (tasks columnDb) \<noteq> None"
    by (simp add: columnDb_def findUnique_def newTask_def setLock_def)
  from reorder_two_phase_dense[OF a1 a2 a3 a4 a5]
  obtain d' where r: "reorderRoute col5 aliceId ?ids columnDb = (Http200 (findManyIn ?ids (tasks d')), d')"
    and p: "\<forall>i<length ?ids. map_option orderId (findUnique (?ids ! i) (tasks d')) = Some (int i + 1)"
    and c: "committed d' = committed columnDb @ [spreadBatch ?ids, compactBatch ?ids]"
    by blast
  have log: "committed d' =
          [[(col5, 100001), (col1, 100002), (col2, 100003), (col3, 100004), (col4, 100005)],
           [(col5, 1), (col1, 2), (col2, 3), (col3, 4), (col4, 5)]]"
    unfolding c by (simp add: columnDb_def spreadBatch_def compactBatch_def OFFSET_def enumerate_eq_zip upt_rec)
  have "map_option orderId (findUnique col5 (tasks d')) = Some 1"
    using p[rule_format, of 0] by simp
  moreover have "map_option orderId (findUnique col1 (tasks d')) = Some 2"
    using p[rule_format, of 1] by simp
  moreover have "map_option orderId (findUnique col2 (tasks d')) = Some 3"
    using p[rule_format, of 2] by simp
  moreover have "map_option orderId (findUnique col3 (tasks d')) = Some 4"
    using p[rule_format, of 3] by simp
  moreover have "map_option orderId (findUnique col4 (tasks d')) = Some 5"
    using p[rule_format, of 4] by simp
  ultimately have "map_option orderId (findUnique col5 (tasks d')) = Some 1
      \<and> map_option orderId (findUnique col1 (tasks d')) = Some 2
      \<and> map_option orderId (findUnique col2 (tasks d')) = Some 3
      \<and> map_option orderId (findUnique col3 (tasks d')) = Some 4
      \<and> map_option orderId (findUnique col4 (tasks d')) = Some 5" by blast
  with r log show ?thesis
    by (intro exI[of _ d']) simp
qed

section \<open>Delete\<close>

lemma findUnique_filter_other:
  "k \<noteq> j \<Longrightarrow> findUnique k (filter (\<lambda>t. task_id t \<noteq> j) ts) = findUnique k ts"
  by (induction ts) (auto simp: findUnique_def)

text \<open>
  C10. Deleting an existing task answers success, removes the task and broadcasts the
  deletion, whatever its two locks say and whoever holds them: the handler has no
  requester and reads no lock column. With the row, both locks are gone.
\<close>

theorem delete_ignores_locks:
  assumes "findUnique deleteId (tasks d) = Some t"
  shows "deleteRoute deleteId d =
           (Http200 True,
            d\<lparr>tasks := filter (\<lambda>t. task_id t \<noteq> deleteId) (tasks d),
              emitted := emitted d @ [TaskDeleted deleteId]\<rparr>)
       \<and> findUnique deleteId (tasks (snd (deleteRoute deleteId d))) = None
       \<and> (\<forall>k. k \<noteq> deleteId \<longrightarrow>
            findUnique k (tasks (snd (deleteRoute deleteId d))) = findUnique k (tasks d))
       \<and> (\<forall>now h. acquireLock now deleteId h (snd (deleteRoute deleteId d)) = Inl TASK_NOT_FOUND
                \<and> acquireEditLock now deleteId h (snd (deleteRoute deleteId d)) = Inl TASK_NOT_FOUND
                \<and> releaseLock deleteId h (snd (deleteRoute deleteId d)) =
                    Inr (False, snd (deleteRoute deleteId d))
                \<and> releaseEditLock deleteId h (snd (deleteRoute deleteId d)) =
                    Inr (False, snd (deleteRoute deleteId d)))"
proof -
  let ?d' = "d\<lparr>tasks := filter (\<lambda>t. task_id t \<noteq> deleteId) (tasks d),
               emitted := emitted d @ [TaskDeleted deleteId]\<rparr>"
  have r: "deleteRoute deleteId d = (Http200 True, ?d')"
    using assms by (simp add: deleteRoute_def delete_def emit_def)
  have gone: "findUnique deleteId (tasks ?d') = None"
    by (auto simp: findUnique_None_iff)
  have others: "\<forall>k. k \<noteq> deleteId \<longrightarrow> findUnique k (tasks ?d') = findUnique k (tasks d)"
    by (simp add: findUnique_filter_other)
  have locks: "\<forall>now h. acquireLock now deleteId h ?d' = Inl TASK_NOT_FOUND
                \<and> acquireEditLock now deleteId h ?d' = Inl TASK_NOT_FOUND
                \<and> releaseLock deleteId h ?d' = Inr (False, ?d')
                \<and> releaseEditLock deleteId h ?d' = Inr (False, ?d')"
    using gone by (simp add: acquireLock_def acquireEditLock_def releaseLock_def releaseEditLock_def)
  show ?thesis unfolding r snd_conv using gone others locks by blast
qed

theorem delete_ignores_locks_witness:
  "isLocked heldTask \<and> lockAcquiredBy heldTask = Some aliceId
 \<and> isEditLocked heldTask \<and> editLockAcquiredBy heldTask = Some aliceId
 \<and> deleteRoute taskA sampleDb =
      (Http200 True, \<lparr>tasks = [freeTask], users = [alice, bob], emitted = [TaskDeleted taskA], committed = []\<rparr>)
 \<and> findUnique taskA (tasks (snd (deleteRoute taskA sampleDb))) = None"
proof -
  note T = delete_ignores_locks[OF sample_heldTask]
  have e: "sampleDb\<lparr>tasks := filter (\<lambda>t. task_id t \<noteq> taskA) (tasks sampleDb),
                    emitted := emitted sampleDb @ [TaskDeleted taskA]\<rparr> =
           \<lparr>tasks = [freeTask], users = [alice, bob], emitted = [TaskDeleted taskA], committed = []\<rparr>"
    by (simp add: sampleDb_def heldTask_def freeTask_def setLock_def setEditLock_def newTask_def)
  from T have "deleteRoute taskA sampleDb =
      (Http200 True, \<lparr>tasks = [freeTask], users = [alice, bob], emitted = [TaskDeleted taskA], committed = []\<rparr>)"
    unfolding e by blast
  moreover from T have "findUnique taskA (tasks (snd (deleteRoute taskA sampleDb))) = None"
    by blast
  ultimately show ?thesis by (simp add: heldTask_locks)
qed


section \<open>Offline queue\<close>

lemma getAllEvents_mset: "mset (getAllEvents q) = mset (rows q)"
  by (simp add: getAllEvents_def)

lemma getAllEvents_sorted: "sorted (map enqueuedAt (getAllEvents q))"
  by (simp add: getAllEvents_def)

lemma getAllEvents_stable:
  "filter (\<lambda>e. enqueuedAt e = t) (getAllEvents q) = filter (\<lambda>e. enqueuedAt e = t) (rows q)"
  by (simp add: getAllEvents_def sort_key_stable)

lemma getAllEvents_set: "set (getAllEvents q) = set (rows q)"
  by (simp add: getAllEvents_def)

lemma getAllEvents_length: "length (getAllEvents q) = length (rows q)"
  by (simp add: getAllEvents_def)

lemma removeLeftovers_rows:
  "rows (removeLeftovers evs q) = filter (\<lambda>e. ev_id e \<notin> ev_id ` set evs) (rows q)"
  by (induction evs arbitrary: q) (auto simp: removeEvent_def intro: filter_cong)

lemma removeLeftovers_all:
  "set (rows q) \<subseteq> set evs \<Longrightarrow> rows (removeLeftovers evs q) = []"
  by (auto simp: removeLeftovers_rows filter_empty_conv)

section \<open>Replay engine\<close>

lemma replayOne_idb: "idb (fst (snd (replayOne B p w))) = idb (fst w)"
  by (cases w; cases p)
     (auto simp: onToast_def split: prod.splits option.splits bool.splits)

lemma replayStep_rows:
  "rows (idb (fst (replayStep B ev w))) =
     (if fst (replayOne B (payload ev) w)
      then filter (\<lambda>e. ev_id e \<noteq> ev_id ev) (rows (idb (fst w)))
      else rows (idb (fst w)))"
  using replayOne_idb[of B "payload ev" w]
  by (auto simp: replayStep_def removeEvent_def split: prod.splits)

lemma replayLoop_append:
  "replayLoop B (xs @ ys) w = replayLoop B ys (replayLoop B xs w)"
  by (induction xs arbitrary: w) auto

lemma replayLoop_rows:
  "\<exists>R. R \<subseteq> ev_id ` set evs \<and>
       rows (idb (fst (replayLoop B evs w))) = filter (\<lambda>e. ev_id e \<notin> R) (rows (idb (fst w)))"
proof (induction evs arbitrary: w)
  case Nil
  have "rows (idb (fst w)) = filter (\<lambda>e. ev_id e \<notin> {}) (rows (idb (fst w)))" by simp
  then show ?case by (metis empty_subsetI replayLoop.simps(1))
next
  case (Cons ev evs)
  from Cons.IH[of "replayStep B ev w"] obtain R where R: "R \<subseteq> ev_id ` set evs"
    "rows (idb (fst (replayLoop B evs (replayStep B ev w)))) =
       filter (\<lambda>e. ev_id e \<notin> R) (rows (idb (fst (replayStep B ev w))))" by blast
  show ?case
  proof (cases "fst (replayOne B (payload ev) w)")
    case True
    have "rows (idb (fst (replayLoop B (ev # evs) w))) =
            filter (\<lambda>e. ev_id e \<notin> insert (ev_id ev) R) (rows (idb (fst w)))"
      using R(2) True by (simp add: replayStep_rows conj_commute)
    moreover have "insert (ev_id ev) R \<subseteq> ev_id ` set (ev # evs)" using R(1) by auto
    ultimately show ?thesis by blast
  next
    case False
    have "rows (idb (fst (replayLoop B (ev # evs) w))) = filter (\<lambda>e. ev_id e \<notin> R) (rows (idb (fst w)))"
      using R(2) False by (simp add: replayStep_rows)
    moreover have "R \<subseteq> ev_id ` set (ev # evs)" using R(1) by auto
    ultimately show ?thesis by blast
  qed
qed

lemma replayLoop_rows_subset:
  "set (rows (idb (fst (replayLoop B evs w)))) \<subseteq> set (rows (idb (fst w)))"
  using replayLoop_rows[of evs B w] by auto


lemma flushQueue_reentrant: "isFlushing c \<Longrightarrow> flushQueue B (c, s) = (c, s)"
  by (simp add: flushQueue_def)

lemma flushQueue_empty:
  "\<not> isFlushing c \<Longrightarrow> rows (idb c) = [] \<Longrightarrow>
   flushQueue B (c, s) = (c\<lparr>isFlushing := False, isSyncing := False\<rparr>, s)"
  by (simp add: flushQueue_def getAllEvents_def finallyBlock_def)

lemma flushQueue_run:
  assumes "\<not> isFlushing c" "rows (idb c) \<noteq> []"
    and "replayLoop B (getAllEvents (idb c))
           (onToast (Syncing (length (rows (idb c)))) ToastInfo (c\<lparr>isFlushing := True, isSyncing := True\<rparr>), s)
         = (c3, s3)"
  shows "flushQueue B (c, s) =
           (c3\<lparr>toasts := toasts c3 @
                  [if length (rows (idb c3)) = 0 then (AllSynced, ToastSuccess)
                   else (Discarded (length (rows (idb c3))), ToastError)],
               idb := (idb c3)\<lparr>rows := []\<rparr>,
               queueLength := 0, isSyncing := False, isFlushing := False\<rparr>, s3)"
proof -
  have n: "getAllEvents (idb c) \<noteq> []"
    using assms(2) getAllEvents_length[of "idb c"] by (metis length_0_conv)
  have i: "idb (c\<lparr>isFlushing := True, isSyncing := True\<rparr>) = idb c" by simp
  have left: "removeLeftovers (getAllEvents (idb c3)) (idb c3) = (idb c3)\<lparr>rows := []\<rparr>"
  proof -
    have "rows (removeLeftovers (getAllEvents (idb c3)) (idb c3)) = []"
      by (rule removeLeftovers_all) (simp add: getAllEvents_set)
    moreover have "\<And>evs q. keygen (removeLeftovers evs q) = keygen q"
    proof -
      fix evs q show "keygen (removeLeftovers evs q) = keygen q"
        by (induction evs arbitrary: q) (simp_all add: removeEvent_def)
    qed
    ultimately show ?thesis by simp
  qed
  show ?thesis
  proof (cases "length (rows (idb c3)) = 0")
    case True
    then have "(idb c3)\<lparr>rows := []\<rparr> = idb c3" by simp
    with True show ?thesis
      using assms(1) n
      by (simp add: flushQueue_def Let_def assms(3) getAllEvents_length countEvents_def)
         (simp add: finallyBlock_def onToast_def)
  next
    case False
    then show ?thesis
      using assms(1) n left
      by (simp add: flushQueue_def Let_def assms(3) getAllEvents_length countEvents_def)
         (simp add: finallyBlock_def onToast_def)
  qed
qed

lemma flushQueue_ends_empty:
  assumes "\<not> isFlushing c"
  shows "rows (idb (fst (flushQueue B (c, s)))) = [] \<and> \<not> isFlushing (fst (flushQueue B (c, s)))"
proof (cases "rows (idb c) = []")
  case True
  then show ?thesis using assms by (simp add: flushQueue_empty)
next
  case False
  obtain c3 s3 where r: "replayLoop B (getAllEvents (idb c))
           (onToast (Syncing (length (rows (idb c)))) ToastInfo (c\<lparr>isFlushing := True, isSyncing := True\<rparr>), s)
         = (c3, s3)" by (cases "replayLoop B (getAllEvents (idb c))
           (onToast (Syncing (length (rows (idb c)))) ToastInfo (c\<lparr>isFlushing := True, isSyncing := True\<rparr>), s)")
  show ?thesis by (simp add: flushQueue_run[OF assms False r])
qed


lemma getAllEvents_distinct:
  assumes "distinct (map ev_id (rows q))"
  shows "distinct (map ev_id (getAllEvents q))"
proof -
  have "mset (map ev_id (getAllEvents q)) = mset (map ev_id (rows q))"
    by (simp add: getAllEvents_mset)
  then show ?thesis using assms by (metis mset_eq_imp_distinct_iff)
qed

lemma replay_prefix_keeps_rest:
  assumes "distinct (map ev_id (pre @ post))" "set post \<subseteq> set (rows (idb (fst w)))"
  shows "set post \<subseteq> set (rows (idb (fst (replayLoop B pre w))))"
proof
  fix e assume e: "e \<in> set post"
  obtain R where R: "R \<subseteq> ev_id ` set pre"
    "rows (idb (fst (replayLoop B pre w))) = filter (\<lambda>e. ev_id e \<notin> R) (rows (idb (fst w)))"
    using replayLoop_rows[of pre B w] by blast
  have "ev_id e \<notin> ev_id ` set pre" using assms(1) e by auto
  with R(1) have "ev_id e \<notin> R" by blast
  with e assms(2) show "e \<in> set (rows (idb (fst (replayLoop B pre w))))"
    by (auto simp: R(2))
qed

lemma live_acquire_denied:
  assumes "findUnique taskId (tasks d) = Some t" "isLocked t" "lockAcquiredBy t = Some h1" "userId \<noteq> h1"
  shows "api_acquireLock (liveBackend now fresh first) taskId userId d = (Some False, d)"
  using assms
  by (simp add: api_acquireLock_def liveBackend_def lockRoute_def acquireLock_def lockData_def)

lemma live_acquire_edit_denied:
  assumes "findUnique taskId (tasks d) = Some t" "isEditLocked t" "editLockAcquiredBy t = Some h1"
    "userId \<noteq> h1"
  shows "api_acquireEditLock (liveBackend now fresh first) taskId userId d = (Some False, d)"
  using assms
  by (simp add: api_acquireEditLock_def liveBackend_def editLockRoute_def acquireEditLock_def lockData_def)

text \<open>
  C5. Whatever the backend, a queued status change, reorder or title edit whose lock
  request is answered with a denial makes \<^verbatim>\<open>replayOne\<close> return false after one error
  toast, with the entry still stored, and the loop goes on with the entries behind it from
  that state; the server of this repository answers so when another user holds the lock.
  A flush that is not reentrant ends with an empty store; when the store was not empty,
  what the loop left behind is a part of it, and the last toast counts the entries that
  were left and dropped (or reports that all were synced).
\<close>

theorem replay_skips_denied_and_discards_leftovers:
  "(\<forall>taskId st userId s1.
      payload ev = UPDATE_STATUS taskId st userId \<and> api_acquireLock B taskId userId s = (Some False, s1) \<longrightarrow>
        replayOne B (payload ev) (c, s) = (False, (onToast StatusChangeSkipped ToastError c, s1))
      \<and> replayLoop B (ev # rest) (c, s) = replayLoop B rest (onToast StatusChangeSkipped ToastError c, s1))
 \<and> (\<forall>taskId userId orderedIds s1.
      payload ev = REORDER_TASKS taskId userId orderedIds \<and> api_acquireLock B taskId userId s = (Some False, s1) \<longrightarrow>
        replayOne B (payload ev) (c, s) = (False, (onToast ReorderSkipped ToastError c, s1))
      \<and> replayLoop B (ev # rest) (c, s) = replayLoop B rest (onToast ReorderSkipped ToastError c, s1))
 \<and> (\<forall>taskId ttl desc userId s1.
      payload ev = UPDATE_TITLE taskId ttl desc userId \<and> api_acquireEditLock B taskId userId s = (Some False, s1) \<longrightarrow>
        replayOne B (payload ev) (c, s) = (False, (onToast TitleEditSkipped ToastError c, s1))
      \<and> replayLoop B (ev # rest) (c, s) = replayLoop B rest (onToast TitleEditSkipped ToastError c, s1))
 \<and> (\<forall>now fresh first d t h1 taskId userId.
      findUnique taskId (tasks d) = Some t \<and> userId \<noteq> h1 \<longrightarrow>
        (isLocked t \<and> lockAcquiredBy t = Some h1 \<longrightarrow>
           api_acquireLock (liveBackend now fresh first) taskId userId d = (Some False, d))
      \<and> (isEditLocked t \<and> editLockAcquiredBy t = Some h1 \<longrightarrow>
           api_acquireEditLock (liveBackend now fresh first) taskId userId d = (Some False, d)))
 \<and> (\<not> isFlushing c \<longrightarrow>
      rows (idb (fst (flushQueue B (c, s)))) = [] \<and> \<not> isFlushing (fst (flushQueue B (c, s))))
 \<and> (\<not> isFlushing c \<and> rows (idb c) \<noteq> [] \<longrightarrow>
      (\<exists>c3 s3.
         replayLoop B (getAllEvents (idb c))
           (onToast (Syncing (length (rows (idb c)))) ToastInfo (c\<lparr>isFlushing := True, isSyncing := True\<rparr>), s)
           = (c3, s3)
       \<and> set (rows (idb c3)) \<subseteq> set (rows (idb c))
       \<and> toasts (fst (flushQueue B (c, s))) =
           toasts c3 @ [if length (rows (idb c3)) = 0 then (AllSynced, ToastSuccess)
                        else (Discarded (length (rows (idb c3))), ToastError)]
       \<and> snd (flushQueue B (c, s)) = s3))"
proof (intro conjI allI impI)
  fix taskId st userId s1
  assume a: "payload ev = UPDATE_STATUS taskId st userId \<and> api_acquireLock B taskId userId s = (Some False, s1)"
  then show r: "replayOne B (payload ev) (c, s) = (False, (onToast StatusChangeSkipped ToastError c, s1))"
    by simp
  then show "replayLoop B (ev # rest) (c, s) = replayLoop B rest (onToast StatusChangeSkipped ToastError c, s1)"
    by (simp add: replayStep_def)
next
  fix taskId userId orderedIds s1
  assume a: "payload ev = REORDER_TASKS taskId userId orderedIds \<and> api_acquireLock B taskId userId s = (Some False, s1)"
  then show r: "replayOne B (payload ev) (c, s) = (False, (onToast ReorderSkipped ToastError c, s1))"
    by simp
  then show "replayLoop B (ev # rest) (c, s) = replayLoop B rest (onToast ReorderSkipped ToastError c, s1)"
    by (simp add: replayStep_def)
next
  fix taskId ttl desc userId s1
  assume a: "payload ev = UPDATE_TITLE taskId ttl desc userId \<and> api_acquireEditLock B taskId userId s = (Some False, s1)"
  then show r: "replayOne B (payload ev) (c, s) = (False, (onToast TitleEditSkipped ToastError c, s1))"
    by simp
  then show "replayLoop B (ev # rest) (c, s) = replayLoop B rest (onToast TitleEditSkipped ToastError c, s1)"
    by (simp add: replayStep_def)
next
  fix now :: int and fresh :: "db \<Rightarrow> string \<times> int" and first :: bool and d :: db and t :: task
    and h1 taskId userId :: string
  assume a: "findUnique taskId (tasks d) = Some t \<and> userId \<noteq> h1"
  { assume "isLocked t \<and> lockAcquiredBy t = Some h1"
    with a show "api_acquireLock (liveBackend now fresh first) taskId userId d = (Some False, d)"
      using live_acquire_denied[of taskId d t h1 userId now fresh first] by blast }
  { assume "isEditLocked t \<and> editLockAcquiredBy t = Some h1"
    with a show "api_acquireEditLock (liveBackend now fresh first) taskId userId d = (Some False, d)"
      using live_acquire_edit_denied[of taskId d t h1 userId now fresh first] by blast }
next
  assume n: "\<not> isFlushing c"
  show "rows (idb (fst (flushQueue B (c, s)))) = []" "\<not> isFlushing (fst (flushQueue B (c, s)))"
    using flushQueue_ends_empty[OF n, of B s] by simp_all
next
  assume a: "\<not> isFlushing c \<and> rows (idb c) \<noteq> []"
  let ?w0 = "(onToast (Syncing (length (rows (idb c)))) ToastInfo (c\<lparr>isFlushing := True, isSyncing := True\<rparr>), s)"
  obtain c3 s3 where r: "replayLoop B (getAllEvents (idb c)) ?w0 = (c3, s3)"
    by (cases "replayLoop B (getAllEvents (idb c)) ?w0")
  have sub: "set (rows (idb c3)) \<subseteq> set (rows (idb c))"
    using replayLoop_rows_subset[of B "getAllEvents (idb c)" ?w0] r by (simp add: onToast_def)
  from a have f: "flushQueue B (c, s) =
           (c3\<lparr>toasts := toasts c3 @
                  [if length (rows (idb c3)) = 0 then (AllSynced, ToastSuccess)
                   else (Discarded (length (rows (idb c3))), ToastError)],
               idb := (idb c3)\<lparr>rows := []\<rparr>,
               queueLength := 0, isSyncing := False, isFlushing := False\<rparr>, s3)"
    using flushQueue_run[of c B s c3 s3] r by blast
  show "\<exists>c3 s3. replayLoop B (getAllEvents (idb c)) ?w0 = (c3, s3)
       \<and> set (rows (idb c3)) \<subseteq> set (rows (idb c))
       \<and> toasts (fst (flushQueue B (c, s))) =
           toasts c3 @ [if length (rows (idb c3)) = 0 then (AllSynced, ToastSuccess)
                        else (Discarded (length (rows (idb c3))), ToastError)]
       \<and> snd (flushQueue B (c, s)) = s3"
    using r sub by (intro exI[of _ c3] exI[of _ s3]) (simp add: f)
qed


lemmas sample_defs = sampleClient_def sampleQueue_def sampleDb_def heldTask_def freeTask_def
  alice_def bob_def sampleFresh_def newTask_def setLock_def setEditLock_def optimisticTask_def
  include_rels_def task.defs relUser_def findUser_def staleClient_def emptyClient_def
  failingBackend_def handleSubmitOffline_def enqueue_def enqueueEvent_def

lemmas live_defs = liveBackend_def lockRoute_def unlockRoute_def editLockRoute_def
  editUnlockRoute_def createTaskRoute_def updateStatusRoute_def updateTitleRoute_def
  reorderRoute_def deleteRoute_def acquireLock_def acquireEditLock_def releaseLock_def
  releaseEditLock_def findUnique_def update_def emit_def delete_def

lemmas client_defs = flushQueue_def getAllEvents_def replayStep_def api_createTask_def
  api_acquireLock_def api_updateStatus_def api_releaseLock_def data_def lockData_def
  onToast_def onTaskCreated_def onTaskUpdated_def handleTaskCreated_def removeEvent_def
  countEvents_def finallyBlock_def Let_def

theorem replay_skips_denied_and_discards_leftovers_witness:
  "api_acquireLock (liveBackend 5000 sampleFresh False) taskA bobId sampleDb = (Some False, sampleDb)
 \<and> replayOne (liveBackend 5000 sampleFresh False) (UPDATE_STATUS taskA DONE bobId) (sampleClient, sampleDb) =
      (False, (onToast StatusChangeSkipped ToastError sampleClient, sampleDb))
 \<and> replayLoop (liveBackend 5000 sampleFresh False) (getAllEvents sampleQueue) (sampleClient, sampleDb) =
      replayLoop (liveBackend 5000 sampleFresh False)
        [\<lparr>ev_id = 1, enqueuedAt = 300, payload = CREATE_TASK ''Write documentation'' None tmp1\<rparr>]
        (onToast StatusChangeSkipped ToastError sampleClient, sampleDb)
 \<and> replayOne (liveBackend 5000 sampleFresh False) (REORDER_TASKS taskA bobId [taskA, taskB]) (sampleClient, sampleDb) =
      (False, (onToast ReorderSkipped ToastError sampleClient, sampleDb))
 \<and> replayOne (liveBackend 5000 sampleFresh False) (UPDATE_TITLE taskA ''Write tests'' None bobId) (sampleClient, sampleDb) =
      (False, (onToast TitleEditSkipped ToastError sampleClient, sampleDb))
 \<and> rows (idb (fst (flushQueue (liveBackend 5000 sampleFresh False) (sampleClient, sampleDb)))) = []
 \<and> toasts (fst (flushQueue (liveBackend 5000 sampleFresh False) (sampleClient, sampleDb))) =
      [(Syncing 2, ToastInfo), (StatusChangeSkipped, ToastError), (Discarded 1, ToastError)]"
proof -
  let ?B = "liveBackend 5000 sampleFresh False"
  let ?ev = "\<lparr>ev_id = 2, enqueuedAt = 200, payload = UPDATE_STATUS taskA DONE bobId\<rparr>"
  let ?ro = "\<lparr>ev_id = 3, enqueuedAt = 400, payload = REORDER_TASKS taskA bobId [taskA, taskB]\<rparr>"
  let ?ti = "\<lparr>ev_id = 4, enqueuedAt = 500, payload = UPDATE_TITLE taskA ''Write tests'' None bobId\<rparr>"
  let ?rest = "[\<lparr>ev_id = 1, enqueuedAt = 300, payload = CREATE_TASK ''Write documentation'' None tmp1\<rparr>]"
  note T = replay_skips_denied_and_discards_leftovers
    [where ev = ?ev and B = ?B and s = sampleDb and c = sampleClient and rest = ?rest]
  have n: "bobId \<noteq> aliceId" by simp
  have nf: "\<not> isFlushing sampleClient" by (simp add: sampleClient_def)
  have ne: "rows (idb sampleClient) \<noteq> []" by (simp add: sampleClient_def sampleQueue_def)
  have q: "getAllEvents sampleQueue = ?ev # ?rest"
    by (simp add: getAllEvents_def sampleQueue_def)
  note T4 = T[THEN conjunct2, THEN conjunct2, THEN conjunct2, THEN conjunct1, rule_format,
      where taskId = "taskA" and d = sampleDb and t = heldTask and userId = "bobId" and ?h1.0 = "aliceId"]
  have d: "api_acquireLock ?B taskA bobId sampleDb = (Some False, sampleDb)"
    using T4[of 5000 sampleFresh False] sample_heldTask n heldTask_locks(1,2) by simp
  have p: "payload ?ev = UPDATE_STATUS taskA DONE bobId" by simp
  note T1 = T[THEN conjunct1, rule_format, of "taskA" DONE "bobId" sampleDb]
  from T1 p d have r: "replayOne ?B (payload ?ev) (sampleClient, sampleDb) =
      (False, (onToast StatusChangeSkipped ToastError sampleClient, sampleDb))"
    and l: "replayLoop ?B (?ev # ?rest) (sampleClient, sampleDb) =
      replayLoop ?B ?rest (onToast StatusChangeSkipped ToastError sampleClient, sampleDb)"
    by simp_all
  note T5 = T[THEN conjunct2, THEN conjunct2, THEN conjunct2, THEN conjunct2, THEN conjunct1, rule_format]
  from T5 nf have e: "rows (idb (fst (flushQueue ?B (sampleClient, sampleDb)))) = []" by simp
  have t: "toasts (fst (flushQueue ?B (sampleClient, sampleDb))) =
      [(Syncing 2, ToastInfo), (StatusChangeSkipped, ToastError), (Discarded 1, ToastError)]"
    by (simp add: sample_defs live_defs client_defs)
  note R = replay_skips_denied_and_discards_leftovers
    [where ev = ?ro and B = ?B and s = sampleDb and c = sampleClient and rest = "[]",
      THEN conjunct2, THEN conjunct1, rule_format, of "taskA" "bobId" "[taskA, taskB]" sampleDb]
  have ro: "replayOne ?B (REORDER_TASKS taskA bobId [taskA, taskB]) (sampleClient, sampleDb) =
      (False, (onToast ReorderSkipped ToastError sampleClient, sampleDb))"
    using R d by simp
  note E4 = replay_skips_denied_and_discards_leftovers
    [where ev = ?ti and B = ?B and s = sampleDb and c = sampleClient and rest = "[]",
      THEN conjunct2, THEN conjunct2, THEN conjunct2, THEN conjunct1, rule_format,
      where taskId = "taskA" and d = sampleDb and t = heldTask and userId = "bobId" and ?h1.0 = "aliceId"]
  have de: "api_acquireEditLock ?B taskA bobId sampleDb = (Some False, sampleDb)"
    using E4[of 5000 sampleFresh False] sample_heldTask n heldTask_locks(4,5) by simp
  note E = replay_skips_denied_and_discards_leftovers
    [where ev = ?ti and B = ?B and s = sampleDb and c = sampleClient and rest = "[]",
      THEN conjunct2, THEN conjunct2, THEN conjunct1, rule_format,
      of "taskA" "''Write tests''" None "bobId" sampleDb]
  have ti: "replayOne ?B (UPDATE_TITLE taskA ''Write tests'' None bobId) (sampleClient, sampleDb) =
      (False, (onToast TitleEditSkipped ToastError sampleClient, sampleDb))"
    using E de by simp
  from d r l ro ti e t show ?thesis unfolding q by simp
qed


text \<open>
  C9. Draining returns the stored entries, all of them and no other, in ascending order of
  their enqueue instant (entries with the same instant in key order). A flush replays the
  drained list front to back: when the list is \<open>pre @ ev # post\<close>, the entry \<open>ev\<close> is replayed
  in the state that the complete processing of \<open>pre\<close> has left, in which \<open>ev\<close> and all of
  \<open>post\<close> are still stored; its step removes \<open>ev\<close> exactly when its replay succeeded and
  leaves \<open>post\<close> stored; and the flush ends in what the processing of \<open>post\<close> makes of that.
\<close>

theorem drain_is_fifo_and_replay_is_sequential:
  "mset (getAllEvents q) = mset (rows q)
 \<and> sorted (map enqueuedAt (getAllEvents q))
 \<and> (\<forall>t. filter (\<lambda>e. enqueuedAt e = t) (getAllEvents q) = filter (\<lambda>e. enqueuedAt e = t) (rows q))
 \<and> (\<forall>pre ev post.
      \<not> isFlushing c \<and> distinct (map ev_id (rows (idb c))) \<and> getAllEvents (idb c) = pre @ ev # post \<longrightarrow>
        (\<exists>w. w = replayLoop B pre
                   (onToast (Syncing (length (rows (idb c)))) ToastInfo
                      (c\<lparr>isFlushing := True, isSyncing := True\<rparr>), s)
            \<and> set (ev # post) \<subseteq> set (rows (idb (fst w)))
            \<and> (fst (replayOne B (payload ev) w) \<longrightarrow>
                  ev \<notin> set (rows (idb (fst (replayStep B ev w)))))
            \<and> (\<not> fst (replayOne B (payload ev) w) \<longrightarrow>
                  ev \<in> set (rows (idb (fst (replayStep B ev w)))))
            \<and> set post \<subseteq> set (rows (idb (fst (replayStep B ev w))))
            \<and> snd (flushQueue B (c, s)) = snd (replayLoop B post (replayStep B ev w))
            \<and> board (fst (flushQueue B (c, s))) = board (fst (replayLoop B post (replayStep B ev w)))))"
proof (intro conjI allI impI)
  show "mset (getAllEvents q) = mset (rows q)" by (rule getAllEvents_mset)
  show "sorted (map enqueuedAt (getAllEvents q))" by (rule getAllEvents_sorted)
  show "\<And>t. filter (\<lambda>e. enqueuedAt e = t) (getAllEvents q) = filter (\<lambda>e. enqueuedAt e = t) (rows q)"
    by (rule getAllEvents_stable)
next
  fix pre ev post
  assume a: "\<not> isFlushing c \<and> distinct (map ev_id (rows (idb c))) \<and> getAllEvents (idb c) = pre @ ev # post"
  let ?init = "(onToast (Syncing (length (rows (idb c)))) ToastInfo (c\<lparr>isFlushing := True, isSyncing := True\<rparr>), s)"
  let ?w = "replayLoop B pre ?init"
  let ?w' = "replayStep B ev ?w"
  have i0: "rows (idb (fst ?init)) = rows (idb c)" by (simp add: onToast_def)
  from a have g: "getAllEvents (idb c) = pre @ ev # post" by blast
  have dist: "distinct (map ev_id (pre @ ev # post))"
    using a getAllEvents_distinct[of "idb c"] by simp
  have all: "set (pre @ ev # post) = set (rows (idb c))"
    using getAllEvents_set[of "idb c"] g by simp
  have ne: "rows (idb c) \<noteq> []" using all by auto
  have k1: "set (ev # post) \<subseteq> set (rows (idb (fst ?w)))"
  proof (rule replay_prefix_keeps_rest)
    show "distinct (map ev_id (pre @ ev # post))" by (rule dist)
    show "set (ev # post) \<subseteq> set (rows (idb (fst ?init)))" using all i0 by auto
  qed
  have key: "\<And>e. e \<in> set (ev # post) \<Longrightarrow> ev_id e = ev_id ev \<Longrightarrow> e = ev"
    using dist by (auto simp: image_iff)
  have k2: "fst (replayOne B (payload ev) ?w) \<longrightarrow> ev \<notin> set (rows (idb (fst ?w')))"
    by (simp add: replayStep_rows)
  have k3: "\<not> fst (replayOne B (payload ev) ?w) \<longrightarrow> ev \<in> set (rows (idb (fst ?w')))"
    using k1 by (simp add: replayStep_rows)
  have k4: "set post \<subseteq> set (rows (idb (fst ?w')))"
  proof
    fix e assume e: "e \<in> set post"
    then have "ev_id e \<noteq> ev_id ev" using dist by (auto simp: image_iff)
    moreover have "e \<in> set (rows (idb (fst ?w)))" using k1 e by auto
    ultimately show "e \<in> set (rows (idb (fst ?w')))" by (simp add: replayStep_rows)
  qed
  have run: "replayLoop B (getAllEvents (idb c)) ?init = replayLoop B post ?w'"
    unfolding g by (simp add: replayLoop_append)
  obtain c3 s3 where r: "replayLoop B post ?w' = (c3, s3)" by (cases "replayLoop B post ?w'")
  have f: "flushQueue B (c, s) =
           (c3\<lparr>toasts := toasts c3 @
                  [if length (rows (idb c3)) = 0 then (AllSynced, ToastSuccess)
                   else (Discarded (length (rows (idb c3))), ToastError)],
               idb := (idb c3)\<lparr>rows := []\<rparr>,
               queueLength := 0, isSyncing := False, isFlushing := False\<rparr>, s3)"
    using flushQueue_run[of c B s c3 s3] a ne run r by simp
  have k5: "snd (flushQueue B (c, s)) = snd (replayLoop B post ?w')"
    and k6: "board (fst (flushQueue B (c, s))) = board (fst (replayLoop B post ?w'))"
    by (simp_all add: f r)
  from k1 k2 k3 k4 k5 k6
  show "\<exists>w. w = ?w
            \<and> set (ev # post) \<subseteq> set (rows (idb (fst w)))
            \<and> (fst (replayOne B (payload ev) w) \<longrightarrow>
                  ev \<notin> set (rows (idb (fst (replayStep B ev w)))))
            \<and> (\<not> fst (replayOne B (payload ev) w) \<longrightarrow>
                  ev \<in> set (rows (idb (fst (replayStep B ev w)))))
            \<and> set post \<subseteq> set (rows (idb (fst (replayStep B ev w))))
            \<and> snd (flushQueue B (c, s)) = snd (replayLoop B post (replayStep B ev w))
            \<and> board (fst (flushQueue B (c, s))) = board (fst (replayLoop B post (replayStep B ev w)))"
    by blast
qed


theorem drain_is_fifo_and_replay_is_sequential_witness:
  "getAllEvents sampleQueue =
     [\<lparr>ev_id = 2, enqueuedAt = 200, payload = UPDATE_STATUS taskA DONE bobId\<rparr>,
      \<lparr>ev_id = 1, enqueuedAt = 300, payload = CREATE_TASK ''Write documentation'' None tmp1\<rparr>]
 \<and> mset (getAllEvents sampleQueue) = mset (rows sampleQueue)
 \<and> sorted (map enqueuedAt (getAllEvents sampleQueue))
 \<and> (\<exists>w. w = replayLoop (liveBackend 5000 sampleFresh False)
                [\<lparr>ev_id = 2, enqueuedAt = 200, payload = UPDATE_STATUS taskA DONE bobId\<rparr>]
                (onToast (Syncing 2) ToastInfo (sampleClient\<lparr>isFlushing := True, isSyncing := True\<rparr>), sampleDb)
      \<and> \<lparr>ev_id = 1, enqueuedAt = 300, payload = CREATE_TASK ''Write documentation'' None tmp1\<rparr>
            \<in> set (rows (idb (fst w)))
      \<and> fst (replayOne (liveBackend 5000 sampleFresh False)
                (CREATE_TASK ''Write documentation'' None tmp1) w)
      \<and> \<lparr>ev_id = 1, enqueuedAt = 300, payload = CREATE_TASK ''Write documentation'' None tmp1\<rparr>
            \<notin> set (rows (idb (fst (replayStep (liveBackend 5000 sampleFresh False)
                 \<lparr>ev_id = 1, enqueuedAt = 300, payload = CREATE_TASK ''Write documentation'' None tmp1\<rparr> w)))))"
proof -
  let ?B = "liveBackend 5000 sampleFresh False"
  let ?e2 = "\<lparr>ev_id = 2, enqueuedAt = 200, payload = UPDATE_STATUS taskA DONE bobId\<rparr>"
  let ?e1 = "\<lparr>ev_id = 1, enqueuedAt = 300, payload = CREATE_TASK ''Write documentation'' None tmp1\<rparr>"
  let ?start = "(onToast (Syncing 2) ToastInfo (sampleClient\<lparr>isFlushing := True, isSyncing := True\<rparr>), sampleDb)"
  note T = drain_is_fifo_and_replay_is_sequential
    [where q = sampleQueue and c = sampleClient and B = ?B and s = sampleDb]
  have q: "getAllEvents sampleQueue = [?e2, ?e1]"
    by (simp add: getAllEvents_def sampleQueue_def)
  have nf: "\<not> isFlushing sampleClient" by (simp add: sampleClient_def)
  have di: "distinct (map ev_id (rows (idb sampleClient)))"
    by (simp add: sampleClient_def sampleQueue_def)
  have g: "getAllEvents (idb sampleClient) = [?e2] @ ?e1 # []"
    using q by (simp add: sampleClient_def)
  have len: "length (rows (idb sampleClient)) = 2" by (simp add: sampleClient_def sampleQueue_def)
  note T4 = T[THEN conjunct2, THEN conjunct2, THEN conjunct2, rule_format, of "[?e2]" ?e1 "[]"]
  from T4 nf di g obtain w where w: "w = replayLoop ?B [?e2] ?start"
    "set (?e1 # []) \<subseteq> set (rows (idb (fst w)))"
    "fst (replayOne ?B (payload ?e1) w) \<longrightarrow> ?e1 \<notin> set (rows (idb (fst (replayStep ?B ?e1 w))))"
    unfolding len by blast
  have ok: "fst (replayOne ?B (CREATE_TASK ''Write documentation'' None tmp1) w)"
    unfolding w(1) by (simp add: sample_defs live_defs client_defs)
  from w ok have "w = replayLoop ?B [?e2] ?start \<and> ?e1 \<in> set (rows (idb (fst w)))
      \<and> fst (replayOne ?B (CREATE_TASK ''Write documentation'' None tmp1) w)
      \<and> ?e1 \<notin> set (rows (idb (fst (replayStep ?B ?e1 w))))"
    by simp
  then have ex: "\<exists>w. w = replayLoop ?B [?e2] ?start \<and> ?e1 \<in> set (rows (idb (fst w)))
      \<and> fst (replayOne ?B (CREATE_TASK ''Write documentation'' None tmp1) w)
      \<and> ?e1 \<notin> set (rows (idb (fst (replayStep ?B ?e1 w))))" ..
  from T have "mset (getAllEvents sampleQueue) = mset (rows sampleQueue)"
    and "sorted (map enqueuedAt (getAllEvents sampleQueue))" by simp_all
  with q ex show ?thesis by simp
qed


section \<open>Reconciling a created task with its placeholder\<close>

lemma findIndex_Some:
  "findIndex P xs = Some i \<Longrightarrow> i < length xs \<and> P (xs ! i) \<and> (\<forall>j<i. \<not> P (xs ! j))"
proof (induction xs arbitrary: i)
  case Nil
  then show ?case by simp
next
  case (Cons x xs)
  show ?case
  proof (cases "P x")
    case True
    with Cons.prems show ?thesis by simp
  next
    case False
    with Cons.prems obtain k where k: "findIndex P xs = Some k" "i = Suc k" by auto
    from Cons.IH[OF k(1)] have "k < length xs" "P (xs ! k)" "\<forall>j<k. \<not> P (xs ! j)" by simp_all
    with False k(2) show ?thesis by (auto simp: less_Suc_eq_0_disj)
  qed
qed

lemma findIndex_None: "findIndex P xs = None \<longleftrightarrow> (\<forall>x\<in>set xs. \<not> P x)"
  by (induction xs) auto

lemma live_createTask:
  assumes "ttl \<noteq> []"
  shows "api_createTask (liveBackend now fresh first) ttl desc d =
           (Some (include_rels (users d) (newTask (fresh d) ttl desc TODO)),
            d\<lparr>tasks := tasks d @ [newTask (fresh d) ttl desc TODO],
              emitted := emitted d @ [TaskCreated (include_rels (users d) (newTask (fresh d) ttl desc TODO))]\<rparr>)"
  using assms
  by (simp add: api_createTask_def liveBackend_def createTaskRoute_def data_def emit_def Let_def)

text \<open>
  The server announces a creation on the socket as well as in the answer to the request.
  The two handlers commute only one way round: after the answer, the notification finds
  the task by its id and changes nothing; before the answer, it appends the task, and the
  answer then overwrites the placeholder with a second copy.
\<close>

lemma notification_after_answer:
  assumes "isOptimistic p" "title p = title t"
  shows "handleTaskCreated t (onTaskCreated t [p]) = [t]"
  using assms by (simp add: onTaskCreated_def handleTaskCreated_def)

lemma notification_before_answer:
  assumes "isOptimistic p" "title p = title t" "task_id p \<noteq> task_id t"
  shows "onTaskCreated t (handleTaskCreated t [p]) = [t, t]"
  using assms by (simp add: onTaskCreated_def handleTaskCreated_def)

lemma handleTaskCreated_present:
  "task_id t \<in> task_id ` set X \<Longrightarrow> handleTaskCreated t X = X"
proof -
  assume "task_id t \<in> task_id ` set X"
  then have "find (\<lambda>p. task_id p = task_id t) X \<noteq> None"
    by (auto simp: find_None_iff)
  then show ?thesis by (auto simp: handleTaskCreated_def)
qed

lemma once_after_swap:
  "i < length xs \<Longrightarrow> P x \<Longrightarrow> \<forall>y\<in>set xs. \<not> P y \<Longrightarrow> length (filter P (xs[i := x])) = 1"
proof (induction xs arbitrary: i)
  case Nil
  then show ?case by simp
next
  case (Cons y ys)
  show ?case
  proof (cases i)
    case 0
    have "filter P ys = []" using Cons.prems(3) by (simp add: filter_empty_conv)
    with 0 Cons.prems(2) show ?thesis by simp
  next
    case (Suc k)
    with Cons.prems have "k < length ys" "\<forall>z\<in>set ys. \<not> P z" "\<not> P y" by simp_all
    with Cons.IH[of k] Cons.prems(2) Suc show ?thesis by simp
  qed
qed

lemma once_after_append:
  "P x \<Longrightarrow> \<forall>y\<in>set xs. \<not> P y \<Longrightarrow> length (filter P (xs @ [x])) = 1"
  by (simp add: filter_empty_conv)

text \<open>
  C6, as the code has it. Take a queued \<^verbatim>\<open>CREATE_TASK\<close> entry whose create request is
  answered with the server's task, on a board that does not hold that task yet, the
  answer being handled before the socket notification of the creation. The replay succeeds
  and the board it leaves holds the task exactly once: the task stands in the place of the
  first optimistic placeholder whose title is the task's title, swapped and not
  duplicated, and the notification that follows changes nothing. The payload's
  \<^verbatim>\<open>tempId\<close> plays no part: any other value gives the same result. With no such
  placeholder the task is appended. The server of this repository answers a non-empty
  title with a task of that title. (What the board holds when the notification is handled
  first is not part of this statement.)
\<close>

theorem create_replay_swaps_first_title_match:
  assumes "api_createTask B ttl desc s = (Some t, s1)"
    and "\<not> notifies_first B s1"
    and "task_id t \<notin> task_id ` set (board c)"
  shows "\<exists>b'. replayOne B (CREATE_TASK ttl desc tempId) (c, s) = (True, (c\<lparr>board := b'\<rparr>, s1))
          \<and> replayOne B (CREATE_TASK ttl desc tempId') (c, s) =
              replayOne B (CREATE_TASK ttl desc tempId) (c, s)
          \<and> length (filter (\<lambda>p. task_id p = task_id t) b') = 1
          \<and> handleTaskCreated t b' = b'
          \<and> (\<forall>i. findIndex (\<lambda>p. isOptimistic p \<and> title p = title t) (board c) = Some i \<longrightarrow>
                i < length (board c)
              \<and> isOptimistic (board c ! i) \<and> title (board c ! i) = title t
              \<and> (\<forall>j<i. \<not> (isOptimistic (board c ! j) \<and> title (board c ! j) = title t))
              \<and> b' = (board c)[i := t]
              \<and> length b' = length (board c))
          \<and> ((\<forall>p\<in>set (board c). \<not> (isOptimistic p \<and> title p = title t)) \<longrightarrow>
                b' = board c @ [t])
          \<and> (\<forall>now fresh first d t' d'.
                ttl \<noteq> [] \<and> api_createTask (liveBackend now fresh first) ttl desc d = (Some t', d') \<longrightarrow>
                  title t' = ttl \<and> task_id t' = fst (fresh d) \<and> \<not> isOptimistic t')"
proof -
  let ?P = "\<lambda>p. isOptimistic p \<and> title p = title t"
  let ?Q = "\<lambda>p. task_id p = task_id t"
  let ?X = "onTaskCreated t (board c)"
  have absent: "\<forall>y\<in>set (board c). \<not> ?Q y" using assms(3) by (auto simp: image_iff)
  have nofind: "find ?Q (board c) = None" using absent by (simp add: find_None_iff)
  have shape: "(\<forall>i. findIndex ?P (board c) = Some i \<longrightarrow> ?X = (board c)[i := t])
             \<and> (findIndex ?P (board c) = None \<longrightarrow> ?X = board c @ [t])"
    by (simp add: onTaskCreated_def nofind)
  have once: "length (filter ?Q ?X) = 1"
  proof (cases "findIndex ?P (board c)")
    case None
    with shape have "?X = board c @ [t]" by simp
    then show ?thesis using once_after_append[of ?Q t "board c"] absent by simp
  next
    case (Some i)
    with shape have x: "?X = (board c)[i := t]" by simp
    from findIndex_Some[OF Some] have "i < length (board c)" by simp
    from once_after_swap[OF this, of ?Q t] absent show ?thesis unfolding x by simp
  qed
  have present: "task_id t \<in> task_id ` set ?X"
  proof -
    from once have "filter ?Q ?X \<noteq> []" by (metis length_0_conv zero_neq_one)
    then obtain y where "y \<in> set ?X" "task_id y = task_id t"
      by (auto simp: filter_empty_conv)
    then show ?thesis by (metis imageI)
  qed
  have later: "handleTaskCreated t ?X = ?X"
    by (rule handleTaskCreated_present[OF present])
  have A: "replayOne B (CREATE_TASK ttl desc tempId) (c, s) = (True, (c\<lparr>board := ?X\<rparr>, s1))"
    using assms(1,2) later by simp
  have B: "replayOne B (CREATE_TASK ttl desc tempId') (c, s) =
           replayOne B (CREATE_TASK ttl desc tempId) (c, s)"
    by simp
  have C: "\<forall>i. findIndex ?P (board c) = Some i \<longrightarrow>
                i < length (board c)
              \<and> isOptimistic (board c ! i) \<and> title (board c ! i) = title t
              \<and> (\<forall>j<i. \<not> (isOptimistic (board c ! j) \<and> title (board c ! j) = title t))
              \<and> ?X = (board c)[i := t]
              \<and> length ?X = length (board c)"
  proof (intro allI impI)
    fix i
    assume i: "findIndex ?P (board c) = Some i"
    with shape have "?X = (board c)[i := t]" by simp
    with findIndex_Some[OF i]
    show "i < length (board c)
              \<and> isOptimistic (board c ! i) \<and> title (board c ! i) = title t
              \<and> (\<forall>j<i. \<not> (isOptimistic (board c ! j) \<and> title (board c ! j) = title t))
              \<and> ?X = (board c)[i := t]
              \<and> length ?X = length (board c)"
      by simp
  qed
  have D: "(\<forall>p\<in>set (board c). \<not> (isOptimistic p \<and> title p = title t)) \<longrightarrow> ?X = board c @ [t]"
    using shape by (simp add: findIndex_None)
  have E: "\<forall>now fresh first d t' d'.
             ttl \<noteq> [] \<and> api_createTask (liveBackend now fresh first) ttl desc d = (Some t', d') \<longrightarrow>
               title t' = ttl \<and> task_id t' = fst (fresh d) \<and> \<not> isOptimistic t'"
  proof (intro allI impI)
    fix now :: int and fresh :: "db \<Rightarrow> string \<times> int" and first :: bool and d d' :: db
      and t' :: ctask
    assume a: "ttl \<noteq> [] \<and> api_createTask (liveBackend now fresh first) ttl desc d = (Some t', d')"
    then have "t' = include_rels (users d) (newTask (fresh d) ttl desc TODO)"
      using live_createTask[of ttl now fresh first desc d] by simp
    then show "title t' = ttl \<and> task_id t' = fst (fresh d) \<and> \<not> isOptimistic t'"
      by (simp add: include_rels_def task.defs newTask_def)
  qed
  show ?thesis
    by (rule exI[of _ ?X])
       (rule conjI[OF A conjI[OF B conjI[OF once conjI[OF later conjI[OF C conjI[OF D E]]]]]])
qed

theorem create_replay_swaps_first_title_match_witness:
  "\<exists>t s1. api_createTask (liveBackend 5000 sampleFresh False) ''Write documentation'' None sampleDb = (Some t, s1)
     \<and> \<not> notifies_first (liveBackend 5000 sampleFresh False) s1
     \<and> task_id t = srvId \<and> title t = ''Write documentation''
     \<and> task_id t \<notin> task_id ` set (board sampleClient)
     \<and> findIndex (\<lambda>p. isOptimistic p \<and> title p = title t) (board sampleClient) = Some 2
     \<and> replayOne (liveBackend 5000 sampleFresh False) (CREATE_TASK ''Write documentation'' None tmp1)
          (sampleClient, sampleDb) =
        (True, (sampleClient\<lparr>board := (board sampleClient)[2 := t]\<rparr>, s1))
     \<and> length (filter (\<lambda>p. task_id p = task_id t) ((board sampleClient)[2 := t])) = 1
     \<and> map task_id ((board sampleClient)[2 := t]) = [taskA, taskB, srvId]"
proof -
  let ?B = "liveBackend 5000 sampleFresh False"
  obtain t s1 where a: "api_createTask ?B ''Write documentation'' None sampleDb = (Some t, s1)"
    using live_createTask[of "''Write documentation''" 5000 sampleFresh False None sampleDb] by simp
  have nf: "\<not> notifies_first ?B s1" by (simp add: liveBackend_def)
  have tt: "t = include_rels (users sampleDb) (newTask (sampleFresh sampleDb) ''Write documentation'' None TODO)"
    using a live_createTask[of "''Write documentation''" 5000 sampleFresh False None sampleDb] by simp
  have id: "task_id t = srvId" and ti: "title t = ''Write documentation''"
    unfolding tt by (simp_all add: sample_defs eval_nat_numeral)
  have fresh: "task_id t \<notin> task_id ` set (board sampleClient)"
    unfolding id by (simp add: sample_defs)
  note T = create_replay_swaps_first_title_match[OF a nf fresh, of tmp1 tmp1]
  then obtain b' where b: "replayOne ?B (CREATE_TASK ''Write documentation'' None tmp1) (sampleClient, sampleDb) =
        (True, (sampleClient\<lparr>board := b'\<rparr>, s1))"
    "length (filter (\<lambda>p. task_id p = task_id t) b') = 1"
    "\<forall>i. findIndex (\<lambda>p. isOptimistic p \<and> title p = title t) (board sampleClient) = Some i \<longrightarrow>
        b' = (board sampleClient)[i := t]"
    by blast
  have i: "findIndex (\<lambda>p. isOptimistic p \<and> title p = title t) (board sampleClient) = Some 2"
    unfolding ti by (simp add: sample_defs)
  from b(3) i have e: "b' = (board sampleClient)[2 := t]" by blast
  have ids: "map task_id ((board sampleClient)[2 := t]) = [taskA, taskB, srvId]"
    using id by (simp add: sample_defs)
  note b1 = b(1)[unfolded e] and b2 = b(2)[unfolded e]
  show ?thesis
    by (intro exI[of _ t] exI[of _ s1] conjI; (rule a nf id ti fresh i b1 b2 ids))
qed

text \<open>
  The claim as written fails on the board of \<open>staleClient\<close>: the only queued entry is the
  create with \<^verbatim>\<open>tempId\<close> \<open>tmpB\<close>; after its replay the server's task stands where the
  placeholder \<open>tmpA\<close> stood, and the placeholder \<open>tmpB\<close> is still on the board.
\<close>

theorem create_replay_ignores_tempId_counterexample:
  "rows (idb staleClient) =
     [\<lparr>ev_id = 2, enqueuedAt = 200, payload = CREATE_TASK ''Buy milk'' None tmpB\<rparr>]
 \<and> map task_id (board staleClient) = [tmpA, tmpB]
 \<and> map isOptimistic (board staleClient) = [True, True]
 \<and> map task_id (board (fst (flushQueue (liveBackend 5000 sampleFresh False) (staleClient, sampleDb)))) =
      [srvId, tmpB]
 \<and> map isOptimistic (board (fst (flushQueue (liveBackend 5000 sampleFresh False) (staleClient, sampleDb)))) =
      [False, True]
 \<and> toasts (fst (flushQueue (liveBackend 5000 sampleFresh False) (staleClient, sampleDb))) =
      toasts staleClient @ [(Syncing 1, ToastInfo), (AllSynced, ToastSuccess)]"
proof -
  have s: "staleClient =
     \<lparr>idb = \<lparr>rows = [\<lparr>ev_id = 2, enqueuedAt = 200, payload = CREATE_TASK ''Buy milk'' None tmpB\<rparr>],
             keygen = 2\<rparr>,
      board = [optimisticTask tmpA 100 ''Buy milk'', optimisticTask tmpB 200 ''Buy milk''],
      toasts = [(TaskQueued, ToastInfo), (Syncing 1, ToastInfo), (Discarded 1, ToastError),
                (TaskQueued, ToastInfo)],
      isFlushing = False, isSyncing = False, queueLength = 1\<rparr>"
    by (simp add: staleClient_def emptyClient_def failingBackend_def handleSubmitOffline_def
        enqueue_def enqueueEvent_def client_defs)
  show ?thesis
    unfolding s
    by (simp add: sampleDb_def heldTask_def freeTask_def alice_def bob_def sampleFresh_def
        newTask_def setLock_def setEditLock_def optimisticTask_def include_rels_def task.defs
        relUser_def findUser_def live_defs client_defs eval_nat_numeral)
qed

end
